theory Spec2Isabelle
  imports Complex_Main "HOL-Library.Word"
begin

section \<open>JavaScript values used by the renderer code\<close>

text \<open>
  A JavaScript string is a sequence of UTF-16 code units; \<open>length\<close>, \<open>slice\<close>, \<open>trim\<close> and
  \<open>replace\<close> all work on code units. String literals of the source that are plain ASCII are
  written \<open>js ''...''\<close>; the others are given by their code units.
\<close>

type_synonym code_unit = "16 word"
type_synonym jsstring = "code_unit list"

definition js :: "string \<Rightarrow> jsstring" where
  "js s = map of_char s"

text \<open>A value of type \<open>string | null | undefined\<close>.\<close>

datatype opt_string = Undefined | Null | Str jsstring

text \<open>JavaScript truthiness of such a value: \<open>null\<close>, \<open>undefined\<close> and \<open>''\<close> are falsy.\<close>

fun truthy :: "opt_string \<Rightarrow> bool" where
  "truthy (Str s) = (s \<noteq> [])"
| "truthy _ = False"

text \<open>What a \<open>throw\<close> carries; \<open>TypeError\<close> is the error of reading a property of \<open>undefined\<close>.\<close>

datatype js_error = TypeError | Thrown jsstring

text \<open>
  \<open>xs.slice(start, fin)\<close> for integer arguments, on strings and on arrays alike: a negative
  index counts from the end, both are clamped to the length.
\<close>

definition slice :: "'a list \<Rightarrow> int \<Rightarrow> int \<Rightarrow> 'a list" where
  "slice xs start fin =
     (let len = int (length xs);
          k = (if start < 0 then max (len + start) 0 else min start len);
          final = (if fin < 0 then max (len + fin) 0 else min fin len)
      in take (nat (max (final - k) 0)) (drop (nat k) xs))"

text \<open>
  The code units that \<open>String.prototype.trim\<close> removes: ECMAScript's WhiteSpace (TAB, VT, FF,
  SP, NBSP, ZWNBSP and the Unicode category Zs) and LineTerminator (LF, CR, LS, PS).
\<close>

definition isWhiteSpace :: "code_unit \<Rightarrow> bool" where
  "isWhiteSpace c \<longleftrightarrow>
     c \<in> set [0x0009, 0x000A, 0x000B, 0x000C, 0x000D, 0x0020, 0x00A0, 0x1680,
              0x2000, 0x2001, 0x2002, 0x2003, 0x2004, 0x2005, 0x2006, 0x2007, 0x2008,
              0x2009, 0x200A, 0x2028, 0x2029, 0x202F, 0x205F, 0x3000, 0xFEFF]"

definition trimStart :: "jsstring \<Rightarrow> jsstring" where
  "trimStart s = dropWhile isWhiteSpace s"

definition trimEnd :: "jsstring \<Rightarrow> jsstring" where
  "trimEnd s = rev (dropWhile isWhiteSpace (rev s))"

definition trim :: "jsstring \<Rightarrow> jsstring" where
  "trim s = trimEnd (trimStart s)"

section \<open>Content truncation (repeat and catchphrase tabs)\<close>

text \<open>
  \<^verbatim>\<open>
  function truncateContent(content: string, maxLength = 30): string {
    if (content.length <= maxLength) return content
    return content.slice(0, maxLength) + '...'
  }
  \<close>
  The optional argument is \<open>None\<close> when the caller leaves it out. Numbers are integers here.
\<close>

definition truncateContent :: "jsstring \<Rightarrow> int option \<Rightarrow> jsstring" where
  "truncateContent content maxLength_arg =
     (let maxLength = (case maxLength_arg of None \<Rightarrow> 30 | Some m \<Rightarrow> m)
      in if int (length content) \<le> maxLength then content
         else slice content 0 maxLength @ js ''...'')"

section \<open>Version strings of the changelog modal\<close>

text \<open>
  \<open>s.replace(/^v/i, '')\<close>: the pattern is anchored at the start and matches one code unit,
  \<open>v\<close> or \<open>V\<close>; at most that one unit is removed.
\<close>

fun replace_leading_v :: "jsstring \<Rightarrow> jsstring" where
  "replace_leading_v [] = []"
| "replace_leading_v (c # cs) = (if c = 0x76 \<or> c = 0x56 then cs else c # cs)"

text \<open>
  \<^verbatim>\<open>
  function normalizeVersion(version?: string | null) {
    return version ? version.trim().replace(/^v/i, '') : null
  }
  \<close>
\<close>

definition normalizeVersion :: "opt_string \<Rightarrow> opt_string" where
  "normalizeVersion version =
     (if truthy version
      then (case version of Str v \<Rightarrow> Str (replace_leading_v (trim v)) | _ \<Rightarrow> Null)
      else Null)"

text \<open>
  \<^verbatim>\<open>
  function isCurrentVersion(version: string) {
    const current = normalizeVersion(currentAppVersion.value)
    return current ? normalizeVersion(version) === current : false
  }
  \<close>
  The reactive \<open>currentAppVersion\<close> (\<open>string | null\<close>) is the first argument.
\<close>

definition isCurrentVersion :: "opt_string \<Rightarrow> jsstring \<Rightarrow> bool" where
  "isCurrentVersion currentAppVersion version =
     (let current = normalizeVersion currentAppVersion
      in if truthy current then normalizeVersion (Str version) = current else False)"

section \<open>Ranking list\<close>

text \<open>
  A JavaScript number is an IEEE 754 double: a sign with a magnitude, which is a finite
  value \<open>m * 2 ^ e\<close> with \<open>m < 2 ^ 53\<close> and \<open>-1074 \<le> e \<le> 971\<close>, or infinity; or NaN.
  \<open>Finite True 0\<close> is the negative zero.
\<close>

datatype number = Finite (negative: bool) (magnitude: rat) | Infinity bool | NaN

text \<open>Rounding to the nearest integer, a tie going to the even one.\<close>

definition round_even :: "rat \<Rightarrow> int" where
  "round_even x =
     (let f = \<lfloor>x\<rfloor>; d = x - of_int f
      in if d < 1 / 2 then f else if 1 / 2 < d then f + 1 else if even f then f else f + 1)"

text \<open>
  The double nearest to a non-negative rational, exponent not yet bounded above: the
  value is scaled by powers of two until it lies between \<open>2 ^ 52\<close> and \<open>2 ^ 53\<close>, where the
  doubles are the integers, rounded there and scaled back. Below \<open>2 ^ -1022\<close> the scaling
  stops at the exponent \<open>-1074\<close> of the subnormal numbers.
\<close>

function scale_down :: "rat \<Rightarrow> int \<Rightarrow> rat" where
  "scale_down x e =
     (if x < 2 ^ 52 \<and> - 1074 < e then scale_down (2 * x) (e - 1) / 2
      else of_int (round_even x))"
  by pat_completeness auto
termination
  by (relation "measure (\<lambda>(x, e). nat (e + 1074))") auto

function scale_up :: "rat \<Rightarrow> rat" where
  "scale_up x = (if 2 ^ 53 \<le> x then 2 * scale_up (x / 2) else scale_down x 0)"
  by pat_completeness auto
termination
proof (relation "measure (\<lambda>x. nat \<lfloor>x\<rfloor>)")
  show "wf (measure (\<lambda>x :: rat. nat \<lfloor>x\<rfloor>))" by simp
next
  fix x :: rat
  assume h: "2 ^ 53 \<le> x"
  have "x / 2 \<le> x - 1" using h by simp
  then have "\<lfloor>x / 2\<rfloor> \<le> \<lfloor>x - 1\<rfloor>" by (rule floor_mono)
  then have a: "\<lfloor>x / 2\<rfloor> < \<lfloor>x\<rfloor>" by simp
  have "(2 :: rat) ^ 53 = of_int (2 ^ 53)" by simp
  then have "(2 :: int) ^ 53 \<le> \<lfloor>x\<rfloor>" using h by (simp only: le_floor_iff)
  then have "0 < \<lfloor>x\<rfloor>" by simp
  then show "(x / 2, x) \<in> measure (\<lambda>x. nat \<lfloor>x\<rfloor>)"
    using a by simp
qed

declare scale_down.simps [simp del]
declare scale_up.simps [simp del]

text \<open>
  The result of an arithmetic operation whose exact value has magnitude \<open>x\<close>: rounded to
  the nearest double, to infinity from \<open>2 ^ 1024\<close> on.
\<close>

definition to_double :: "bool \<Rightarrow> rat \<Rightarrow> number" where
  "to_double s x = (let m = scale_up x in if 2 ^ 1024 \<le> m then Infinity s else Finite s m)"

text \<open>The operators \<open>/\<close> and \<open>*\<close> on numbers.\<close>

fun js_div :: "number \<Rightarrow> number \<Rightarrow> number" where
  "js_div (Finite s1 m1) (Finite s2 m2) =
     (if m2 = 0 then (if m1 = 0 then NaN else Infinity (s1 \<noteq> s2))
      else to_double (s1 \<noteq> s2) (m1 / m2))"
| "js_div (Finite s1 m1) (Infinity s2) = Finite (s1 \<noteq> s2) 0"
| "js_div (Infinity s1) (Finite s2 m2) = Infinity (s1 \<noteq> s2)"
| "js_div (Infinity s1) (Infinity s2) = NaN"
| "js_div NaN b = NaN"
| "js_div a NaN = NaN"

fun js_mul :: "number \<Rightarrow> number \<Rightarrow> number" where
  "js_mul (Finite s1 m1) (Finite s2 m2) = to_double (s1 \<noteq> s2) (m1 * m2)"
| "js_mul (Finite s1 m1) (Infinity s2) = (if m1 = 0 then NaN else Infinity (s1 \<noteq> s2))"
| "js_mul (Infinity s1) (Finite s2 m2) = (if m2 = 0 then NaN else Infinity (s1 \<noteq> s2))"
| "js_mul (Infinity s1) (Infinity s2) = Infinity (s1 \<noteq> s2)"
| "js_mul NaN b = NaN"
| "js_mul a NaN = NaN"

text \<open>The comparisons \<open>===\<close> and \<open><=\<close> on numbers: the two zeros are equal, NaN compares false.\<close>

fun strict_eq :: "number \<Rightarrow> number \<Rightarrow> bool" where
  "strict_eq (Finite s1 m1) (Finite s2 m2) \<longleftrightarrow> m1 = m2 \<and> (s1 = s2 \<or> m1 = 0)"
| "strict_eq (Infinity s1) (Infinity s2) \<longleftrightarrow> s1 = s2"
| "strict_eq a b \<longleftrightarrow> False"

fun js_le :: "number \<Rightarrow> number \<Rightarrow> bool" where
  "js_le (Finite s1 m1) (Finite s2 m2) \<longleftrightarrow>
     (if s1 then - m1 else m1) \<le> (if s2 then - m2 else m2)"
| "js_le (Finite s1 m1) (Infinity s2) \<longleftrightarrow> \<not> s2"
| "js_le (Infinity s1) (Finite s2 m2) \<longleftrightarrow> s1"
| "js_le (Infinity s1) (Infinity s2) \<longleftrightarrow> s1 \<or> \<not> s2"
| "js_le NaN b \<longleftrightarrow> False"
| "js_le a NaN \<longleftrightarrow> False"

text \<open>
  \<open>Number.isFinite\<close>, and the values of \<open>number\<close> that are doubles: a finite one has a
  non-negative magnitude which rounding leaves as it is.
\<close>

fun isFinite :: "number \<Rightarrow> bool" where
  "isFinite (Finite s m) \<longleftrightarrow> True"
| "isFinite a \<longleftrightarrow> False"

fun is_double :: "number \<Rightarrow> bool" where
  "is_double (Finite s m) \<longleftrightarrow> 0 \<le> m \<and> to_double s m = Finite s m"
| "is_double a \<longleftrightarrow> True"

text \<open>
  \<open>Math.round\<close>: the nearest integer, a tie going up; the sign is kept when the result is
  zero. NaN and the infinities are returned as they are.
\<close>

fun Math_round :: "number \<Rightarrow> number" where
  "Math_round (Finite s m) =
     (let r = \<lfloor>(if s then - m else m) + 1 / 2\<rfloor>
      in Finite (r < 0 \<or> r = 0 \<and> s) (of_int \<bar>r\<bar>))"
| "Math_round a = a"

text \<open>\<open>RankItem\<close> of the ranking component (fields \<open>id\<close>, \<open>name\<close>, \<open>value\<close>, \<open>percentage\<close>).\<close>

record RankItem =
  item_id :: jsstring
  item_name :: jsstring
  "value" :: number
  percentage :: number

text \<open>
  \<^verbatim>\<open>
  const displayMembers = computed(() => {
    return props.rankLimit > 0 ? props.members.slice(0, props.rankLimit) : props.members
  })
  \<close>
\<close>

definition displayMembers :: "RankItem list \<Rightarrow> int \<Rightarrow> RankItem list" where
  "displayMembers members rankLimit =
     (if rankLimit > 0 then slice members 0 rankLimit else members)"

text \<open>
  \<^verbatim>\<open>
  function getRelativePercentage(index: number): number {
    if (displayMembers.value.length === 0) return 0
    const maxValue = displayMembers.value[0].value
    if (maxValue === 0) return 0
    return Math.round((displayMembers.value[index].value / maxValue) * 100)
  }
  \<close>
  Reading \<open>.value\<close> of an element out of range throws a TypeError.
\<close>

definition getRelativePercentage :: "RankItem list \<Rightarrow> int \<Rightarrow> int \<Rightarrow> js_error + number" where
  "getRelativePercentage members rankLimit index =
     (let dm = displayMembers members rankLimit
      in if length dm = 0 then Inr (Finite False 0)
         else let maxValue = value (dm ! 0)
              in if strict_eq maxValue (Finite False 0) then Inr (Finite False 0)
                 else if 0 \<le> index \<and> index < int (length dm)
                      then Inr (Math_round
                                  (js_mul (js_div (value (dm ! nat index)) maxValue)
                                     (Finite False 100)))
                      else Inl TypeError)"

section \<open>Analysis tabs: loading through the bridge\<close>

text \<open>
  A call of \<open>window.chatApi\<close> is a promise; its outcome is \<open>Inr\<close> the value it resolves to
  or \<open>Inl\<close> the error it rejects with, which \<open>await\<close> throws. What a function writes to the
  console is returned beside the new state.
\<close>

datatype log_entry = ConsoleError jsstring js_error | ConsoleLog jsstring

record TimeFilter =
  startTs :: "int option"
  endTs :: "int option"

record analysis_props =
  sessionId :: jsstring
  timeFilter :: "TimeFilter option"

text \<open>The repeat tab: \<open>repeatAnalysis\<close> and \<open>isLoading\<close>.\<close>

record 'r repeat_tab =
  repeatAnalysis :: "'r option"
  isLoading :: bool

text \<open>
  The label of \<open>console.error\<close> in \<open>loadRepeatAnalysis\<close>, a Chinese text ending in a colon.
\<close>

definition repeat_failed :: jsstring where
  "repeat_failed = [0x52A0, 0x8F7D, 0x590D, 0x8BFB, 0x5206, 0x6790, 0x5931, 0x8D25, 0x3A]"

text \<open>
  \<^verbatim>\<open>
  async function loadRepeatAnalysis() {
    if (!props.sessionId) return
    isLoading.value = true
    try {
      repeatAnalysis.value = await window.chatApi.getRepeatAnalysis(props.sessionId, props.timeFilter)
    } catch (error) {
      console.error('...', error)
    } finally {
      isLoading.value = false
    }
  }
  \<close>
\<close>

definition loadRepeatAnalysis ::
  "'p analysis_props_scheme \<Rightarrow> (jsstring \<Rightarrow> TimeFilter option \<Rightarrow> js_error + 'r option)
     \<Rightarrow> 'r repeat_tab \<Rightarrow> 'r repeat_tab \<times> log_entry list" where
  "loadRepeatAnalysis props getRepeatAnalysis st =
     (if sessionId props = [] then (st, [])
      else let st1 = st\<lparr>isLoading := True\<rparr>
           in case getRepeatAnalysis (sessionId props) (timeFilter props) of
                Inr r \<Rightarrow> (st1\<lparr>repeatAnalysis := r, isLoading := False\<rparr>, [])
              | Inl error \<Rightarrow> (st1\<lparr>isLoading := False\<rparr>, [ConsoleError repeat_failed error]))"

text \<open>
  The catchphrase tab holds \<open>catchphraseAnalysis\<close>, \<open>isLoadingCatchphrase\<close> and its own
  \<open>repeatAnalysis\<close>, \<open>isLoadingRepeat\<close> (here \<open>repeatAnalysis_c\<close>).
\<close>

record ('c, 'r) catchphrase_tab =
  catchphraseAnalysis :: "'c option"
  isLoadingCatchphrase :: bool
  repeatAnalysis_c :: "'r option"
  isLoadingRepeat :: bool

definition catchphrase_failed :: jsstring where
  "catchphrase_failed =
     [0x52A0, 0x8F7D, 0x53E3, 0x5934, 0x7985, 0x5206, 0x6790, 0x5931, 0x8D25, 0x3A]"

text \<open>
  \<^verbatim>\<open>
  async function loadCatchphraseAnalysis() {
    if (!props.sessionId) return
    isLoadingCatchphrase.value = true
    try {
      catchphraseAnalysis.value = await window.chatApi.getCatchphraseAnalysis(props.sessionId, props.timeFilter)
    } catch (error) {
      console.error('...', error)
    } finally {
      isLoadingCatchphrase.value = false
    }
  }
  \<close>
\<close>

definition loadCatchphraseAnalysis ::
  "'p analysis_props_scheme \<Rightarrow> (jsstring \<Rightarrow> TimeFilter option \<Rightarrow> js_error + 'c option)
     \<Rightarrow> ('c, 'r) catchphrase_tab \<Rightarrow> ('c, 'r) catchphrase_tab \<times> log_entry list" where
  "loadCatchphraseAnalysis props getCatchphraseAnalysis st =
     (if sessionId props = [] then (st, [])
      else let st1 = st\<lparr>isLoadingCatchphrase := True\<rparr>
           in case getCatchphraseAnalysis (sessionId props) (timeFilter props) of
                Inr c \<Rightarrow> (st1\<lparr>catchphraseAnalysis := c, isLoadingCatchphrase := False\<rparr>, [])
              | Inl error \<Rightarrow>
                  (st1\<lparr>isLoadingCatchphrase := False\<rparr>, [ConsoleError catchphrase_failed error]))"

text \<open>The catchphrase tab's copy of \<open>loadRepeatAnalysis\<close>, on \<open>isLoadingRepeat\<close>.\<close>

definition loadRepeatAnalysis_c ::
  "'p analysis_props_scheme \<Rightarrow> (jsstring \<Rightarrow> TimeFilter option \<Rightarrow> js_error + 'r option)
     \<Rightarrow> ('c, 'r) catchphrase_tab \<Rightarrow> ('c, 'r) catchphrase_tab \<times> log_entry list" where
  "loadRepeatAnalysis_c props getRepeatAnalysis st =
     (if sessionId props = [] then (st, [])
      else let st1 = st\<lparr>isLoadingRepeat := True\<rparr>
           in case getRepeatAnalysis (sessionId props) (timeFilter props) of
                Inr r \<Rightarrow> (st1\<lparr>repeatAnalysis_c := r, isLoadingRepeat := False\<rparr>, [])
              | Inl error \<Rightarrow> (st1\<lparr>isLoadingRepeat := False\<rparr>, [ConsoleError repeat_failed error]))"

section \<open>Activity tab: members with nickname changes\<close>

text \<open>
  A member, as far as this code reads it: \<open>memberId\<close> and \<open>name\<close>. \<open>MemberActivity\<close> has
  more fields (the record's extension); \<open>MemberWithHistory\<close> adds \<open>history\<close>.
\<close>

record Member =
  memberId :: int
  member_name :: jsstring

record 'h MemberWithHistory = Member +
  history :: "'h list"

record ('d, 'm) activity_props = analysis_props +
  dailyActivity :: "'d list"
  memberActivity :: "'m Member_scheme list"
  timeRange :: "(int \<times> int) option"

record 'h activity_tab =
  membersWithNicknameChanges :: "'h MemberWithHistory list"
  isLoadingHistory :: bool

definition history_failed :: jsstring where
  "history_failed =
     [0x52A0, 0x8F7D, 0x6635, 0x79F0, 0x53D8, 0x66F4, 0x8BB0, 0x5F55, 0x5931, 0x8D25, 0x3A]"

text \<open>
  \<open>Promise.all\<close> on promises whose outcomes are given. It rejects as soon as one of them
  rejects, with that rejection, and resolves to the list of values when all have resolved.
  \<open>order\<close> lists the indices of the promises in the order in which they settle; promises it
  leaves out settle after the others, in the order of the list.
\<close>

fun first_rejection :: "nat list \<Rightarrow> (js_error + 'x) list \<Rightarrow> js_error option" where
  "first_rejection [] ps = None"
| "first_rejection (i # order) ps =
     (if i < length ps
      then (case ps ! i of Inl e \<Rightarrow> Some e | Inr x \<Rightarrow> first_rejection order ps)
      else first_rejection order ps)"

definition Promise_all :: "nat list \<Rightarrow> (js_error + 'x) list \<Rightarrow> js_error + 'x list" where
  "Promise_all order ps =
     (case first_rejection (order @ [0 ..< length ps]) ps of
        Some e \<Rightarrow> Inl e
      | None \<Rightarrow> Inr (concat (map (\<lambda>p. case p of Inr x \<Rightarrow> [x] | Inl e \<Rightarrow> []) ps)))"

text \<open>
  The \<open>forEach\<close> of \<open>loadMembersWithNicknameChanges\<close> over the members with their indices,
  pushing onto \<open>membersWithChanges\<close>:
  \<^verbatim>\<open>
      props.memberActivity.forEach((member, index) => {
        const history = allHistories[index]
        if (history.length > 1) {
          membersWithChanges.push({ memberId: member.memberId, name: member.name, history })
        }
      })
  \<close>
  Past the end of \<open>allHistories\<close> the history is \<open>undefined\<close> and reading its length throws.
\<close>

fun forEach_push ::
  "'h list list \<Rightarrow> ('m Member_scheme \<times> nat) list \<Rightarrow> 'h MemberWithHistory list
     \<Rightarrow> js_error + 'h MemberWithHistory list" where
  "forEach_push allHistories [] membersWithChanges = Inr membersWithChanges"
| "forEach_push allHistories ((member, index) # rest) membersWithChanges =
     (if index < length allHistories
      then (let h = allHistories ! index
            in if length h > 1
               then forEach_push allHistories rest
                      (membersWithChanges @
                         [\<lparr>memberId = memberId member, member_name = member_name member,
                           history = h\<rparr>])
               else forEach_push allHistories rest membersWithChanges)
      else Inl TypeError)"

text \<open>
  \<^verbatim>\<open>
  async function loadMembersWithNicknameChanges() {
    if (!props.sessionId || props.memberActivity.length === 0) return
    isLoadingHistory.value = true
    const membersWithChanges: MemberWithHistory[] = []
    try {
      const historyPromises = props.memberActivity.map((member) =>
        window.chatApi.getMemberNameHistory(props.sessionId, member.memberId)
      )
      const allHistories = await Promise.all(historyPromises)
      props.memberActivity.forEach((member, index) => { ... })
      membersWithNicknameChanges.value = membersWithChanges
    } catch (error) {
      console.error('...', error)
    } finally {
      isLoadingHistory.value = false
    }
  }
  \<close>
  The function runs in two tasks. The first one, up to the \<open>await\<close>, returns the state, the
  bridge calls it has issued, in order, and the promises it waits for (\<open>None\<close> when it has
  returned at the guard).
\<close>

definition loadMembersWithNicknameChanges_call ::
  "('d, 'm, 'p) activity_props_scheme \<Rightarrow> (jsstring \<Rightarrow> int \<Rightarrow> js_error + 'h list)
     \<Rightarrow> 'h activity_tab
     \<Rightarrow> 'h activity_tab \<times> (jsstring \<times> int) list \<times> (js_error + 'h list) list option" where
  "loadMembersWithNicknameChanges_call props getMemberNameHistory st =
     (if sessionId props = [] \<or> length (memberActivity props) = 0 then (st, [], None)
      else let st1 = st\<lparr>isLoadingHistory := True\<rparr>;
               calls = map (\<lambda>member. (sessionId props, memberId member)) (memberActivity props);
               historyPromises = map (\<lambda>(sid, mid). getMemberNameHistory sid mid) calls
           in (st1, calls, Some historyPromises))"

text \<open>
  The second task runs when the promises have settled, on the state and with the props of
  that moment: \<open>props\<close> is reactive, and \<open>props.memberActivity\<close> is read again for the
  \<open>forEach\<close>.
\<close>

definition loadMembersWithNicknameChanges_settled ::
  "('d, 'm, 'p) activity_props_scheme \<Rightarrow> nat list \<Rightarrow> (js_error + 'h list) list
     \<Rightarrow> 'h activity_tab \<Rightarrow> 'h activity_tab \<times> log_entry list" where
  "loadMembersWithNicknameChanges_settled props_now order historyPromises st =
     (case Promise_all order historyPromises of
        Inr allHistories \<Rightarrow>
          (case forEach_push allHistories
                  (zip (memberActivity props_now) [0 ..< length (memberActivity props_now)]) [] of
             Inr membersWithChanges \<Rightarrow>
               (st\<lparr>membersWithNicknameChanges := membersWithChanges,
                   isLoadingHistory := False\<rparr>, [])
           | Inl error \<Rightarrow>
               (st\<lparr>isLoadingHistory := False\<rparr>, [ConsoleError history_failed error]))
      | Inl error \<Rightarrow> (st\<lparr>isLoadingHistory := False\<rparr>, [ConsoleError history_failed error]))"

text \<open>
  One whole call with nothing else touching the component's state in between: \<open>props\<close> as
  they are at the call, \<open>props_now\<close> as they are when the promises have settled.
\<close>

definition loadMembersWithNicknameChanges ::
  "('d, 'm, 'p) activity_props_scheme \<Rightarrow> (jsstring \<Rightarrow> int \<Rightarrow> js_error + 'h list)
     \<Rightarrow> nat list \<Rightarrow> ('d, 'm, 'p) activity_props_scheme \<Rightarrow> 'h activity_tab
     \<Rightarrow> 'h activity_tab \<times> (jsstring \<times> int) list \<times> log_entry list" where
  "loadMembersWithNicknameChanges props getMemberNameHistory order props_now st =
     (case loadMembersWithNicknameChanges_call props getMemberNameHistory st of
        (st1, calls, None) \<Rightarrow> (st1, calls, [])
      | (st1, calls, Some historyPromises) \<Rightarrow>
          (let (st2, logs) =
                 loadMembersWithNicknameChanges_settled props_now order historyPromises st1
           in (st2, calls, logs)))"

section \<open>The chat store\<close>

text \<open>
  \<open>AnalysisSession\<close> is read here through \<open>id\<close> and \<open>name\<close> only; its other fields are
  the record's extension. Likewise \<open>KeywordTemplate\<close> and its \<open>id\<close>.
\<close>

record AnalysisSession =
  session_id :: jsstring
  session_name :: jsstring

record ImportProgress =
  stage :: jsstring
  progress :: int
  message :: jsstring

record KeywordTemplate =
  template_id :: jsstring

text \<open>The refs of the store, in the order the setup function returns them.\<close>

record ('a, 'k) store =
  sessions :: "'a AnalysisSession_scheme list"
  currentSessionId :: opt_string
  isImporting :: bool
  importProgress :: "ImportProgress option"
  isInitialized :: bool
  isSidebarCollapsed :: bool
  showSettingModal :: bool
  customKeywordTemplates :: "'k KeywordTemplate_scheme list"
  deletedPresetTemplateIds :: "jsstring list"

text \<open>\<open>xs.findIndex(P)\<close>: the first index whose element satisfies \<open>P\<close>, or \<open>-1\<close>.\<close>

fun findIndex :: "('x \<Rightarrow> bool) \<Rightarrow> 'x list \<Rightarrow> int" where
  "findIndex P [] = - 1"
| "findIndex P (x # xs) =
     (if P x then 0 else (let i = findIndex P xs in if i = - 1 then - 1 else i + 1))"

text \<open>\<open>xs.splice(index, 1)\<close> for an index that \<open>findIndex\<close> found.\<close>

definition splice1 :: "'x list \<Rightarrow> int \<Rightarrow> 'x list" where
  "splice1 xs index = take (nat index) xs @ drop (Suc (nat index)) xs"

text \<open>
  \<open>const x = xs.find(P); if (x) x.f = v\<close>: the first element that satisfies \<open>P\<close> is changed
  in place, the array keeps its other elements.
\<close>

fun update_found :: "('x \<Rightarrow> bool) \<Rightarrow> ('x \<Rightarrow> 'x) \<Rightarrow> 'x list \<Rightarrow> 'x list" where
  "update_found P f [] = []"
| "update_found P f (x # xs) = (if P x then f x # xs else x # update_found P f xs)"

text \<open>
  \<^verbatim>\<open>
  const currentSession = computed(() => {
    if (!currentSessionId.value) return null
    return sessions.value.find((s) => s.id === currentSessionId.value) || null
  })
  \<close>
\<close>

definition currentSession :: "('a, 'k, 'z) store_scheme \<Rightarrow> 'a AnalysisSession_scheme option" where
  "currentSession st =
     (if \<not> truthy (currentSessionId st) then None
      else find (\<lambda>s. Str (session_id s) = currentSessionId st) (sessions st))"

definition sessions_failed :: jsstring where
  "sessions_failed = [0x52A0, 0x8F7D, 0x4F1A, 0x8BDD, 0x5217, 0x8868, 0x5931, 0x8D25, 0x3A]"

definition delete_failed :: jsstring where
  "delete_failed = [0x5220, 0x9664, 0x4F1A, 0x8BDD, 0x5931, 0x8D25, 0x3A]"

definition rename_failed :: jsstring where
  "rename_failed = [0x91CD, 0x547D, 0x540D, 0x4F1A, 0x8BDD, 0x5931, 0x8D25, 0x3A]"

definition import_failed :: jsstring where
  "import_failed = [0x5BFC, 0x5165, 0x5931, 0x8D25]"

text \<open>
  \<^verbatim>\<open>
  async function loadSessions() {
    try {
      const list = await window.chatApi.getSessions()
      sessions.value = list
      if (currentSessionId.value && !list.find((s) => s.id === currentSessionId.value)) {
        currentSessionId.value = null
      }
      isInitialized.value = true
    } catch (error) {
      console.error('...', error)
      isInitialized.value = true
    }
  }
  \<close>
  The first argument is the outcome of \<open>getSessions()\<close>.
\<close>

definition loadSessions ::
  "js_error + 'a AnalysisSession_scheme list \<Rightarrow> ('a, 'k, 'z) store_scheme
     \<Rightarrow> ('a, 'k, 'z) store_scheme \<times> log_entry list" where
  "loadSessions getSessions st =
     (case getSessions of
        Inr list \<Rightarrow>
          (let st1 = st\<lparr>sessions := list\<rparr>;
               st2 = (if truthy (currentSessionId st1)
                         \<and> find (\<lambda>s. Str (session_id s) = currentSessionId st1) list = None
                      then st1\<lparr>currentSessionId := Null\<rparr> else st1)
           in (st2\<lparr>isInitialized := True\<rparr>, []))
      | Inl error \<Rightarrow> (st\<lparr>isInitialized := True\<rparr>, [ConsoleError sessions_failed error]))"

text \<open>\<open>selectSession\<close>, \<open>clearSelection\<close> and \<open>toggleSidebar\<close>.\<close>

definition selectSession :: "jsstring \<Rightarrow> ('a, 'k, 'z) store_scheme \<Rightarrow> ('a, 'k, 'z) store_scheme" where
  "selectSession ident st = st\<lparr>currentSessionId := Str ident\<rparr>"

definition clearSelection :: "('a, 'k, 'z) store_scheme \<Rightarrow> ('a, 'k, 'z) store_scheme" where
  "clearSelection st = st\<lparr>currentSessionId := Null\<rparr>"

definition toggleSidebar :: "('a, 'k, 'z) store_scheme \<Rightarrow> ('a, 'k, 'z) store_scheme" where
  "toggleSidebar st = st\<lparr>isSidebarCollapsed := \<not> isSidebarCollapsed st\<rparr>"

text \<open>
  \<^verbatim>\<open>
  async function deleteSession(id: string): Promise<boolean> {
    try {
      const success = await window.chatApi.deleteSession(id)
      if (success) {
        const index = sessions.value.findIndex((s) => s.id === id)
        if (index !== -1) {
          sessions.value.splice(index, 1)
        }
        if (currentSessionId.value === id) {
          currentSessionId.value = null
        }
      }
      return success
    } catch (error) {
      console.error('...', error)
      return false
    }
  }
  \<close>
  The second argument is the outcome of the bridge call.
\<close>

definition deleteSession ::
  "jsstring \<Rightarrow> js_error + bool \<Rightarrow> ('a, 'k, 'z) store_scheme
     \<Rightarrow> bool \<times> ('a, 'k, 'z) store_scheme \<times> log_entry list" where
  "deleteSession ident bridge st =
     (case bridge of
        Inr success \<Rightarrow>
          (if success
           then (let index = findIndex (\<lambda>s. session_id s = ident) (sessions st);
                     st1 = (if index \<noteq> - 1 then st\<lparr>sessions := splice1 (sessions st) index\<rparr>
                            else st);
                     st2 = (if currentSessionId st1 = Str ident
                            then st1\<lparr>currentSessionId := Null\<rparr> else st1)
                 in (success, st2, []))
           else (success, st, []))
      | Inl error \<Rightarrow> (False, st, [ConsoleError delete_failed error]))"

text \<open>
  \<^verbatim>\<open>
  async function renameSession(id: string, newName: string): Promise<boolean> {
    try {
      const success = await window.chatApi.renameSession(id, newName)
      if (success) {
        const session = sessions.value.find((s) => s.id === id)
        if (session) {
          session.name = newName
        }
      }
      return success
    } catch (error) {
      console.error('...', error)
      return false
    }
  }
  \<close>
\<close>

definition renameSession ::
  "jsstring \<Rightarrow> jsstring \<Rightarrow> js_error + bool \<Rightarrow> ('a, 'k, 'z) store_scheme
     \<Rightarrow> bool \<times> ('a, 'k, 'z) store_scheme \<times> log_entry list" where
  "renameSession ident newName bridge st =
     (case bridge of
        Inr success \<Rightarrow>
          (if success
           then (success,
                 st\<lparr>sessions := update_found (\<lambda>s. session_id s = ident)
                                  (\<lambda>session. session\<lparr>session_name := newName\<rparr>) (sessions st)\<rparr>,
                 [])
           else (success, st, []))
      | Inl error \<Rightarrow> (False, st, [ConsoleError rename_failed error]))"

text \<open>The keyword templates and the deleted preset ids.\<close>

definition addCustomKeywordTemplate ::
  "'k KeywordTemplate_scheme \<Rightarrow> ('a, 'k, 'z) store_scheme \<Rightarrow> ('a, 'k, 'z) store_scheme" where
  "addCustomKeywordTemplate template st =
     st\<lparr>customKeywordTemplates := customKeywordTemplates st @ [template]\<rparr>"

text \<open>
  \<open>updates\<close> is the merge \<open>{...old, ...updates}\<close> as a function of the old template.
\<close>

definition updateCustomKeywordTemplate ::
  "jsstring \<Rightarrow> ('k KeywordTemplate_scheme \<Rightarrow> 'k KeywordTemplate_scheme)
     \<Rightarrow> ('a, 'k, 'z) store_scheme \<Rightarrow> ('a, 'k, 'z) store_scheme" where
  "updateCustomKeywordTemplate templateId updates st =
     (let index = findIndex (\<lambda>t. template_id t = templateId) (customKeywordTemplates st)
      in if index \<noteq> - 1
         then st\<lparr>customKeywordTemplates :=
                   (customKeywordTemplates st)
                     [nat index := updates (customKeywordTemplates st ! nat index)]\<rparr>
         else st)"

definition removeCustomKeywordTemplate ::
  "jsstring \<Rightarrow> ('a, 'k, 'z) store_scheme \<Rightarrow> ('a, 'k, 'z) store_scheme" where
  "removeCustomKeywordTemplate templateId st =
     (let index = findIndex (\<lambda>t. template_id t = templateId) (customKeywordTemplates st)
      in if index \<noteq> - 1
         then st\<lparr>customKeywordTemplates := splice1 (customKeywordTemplates st) index\<rparr>
         else st)"

definition addDeletedPresetTemplateId ::
  "jsstring \<Rightarrow> ('a, 'k, 'z) store_scheme \<Rightarrow> ('a, 'k, 'z) store_scheme" where
  "addDeletedPresetTemplateId ident st =
     (if ident \<notin> set (deletedPresetTemplateIds st)
      then st\<lparr>deletedPresetTemplateIds := deletedPresetTemplateIds st @ [ident]\<rparr>
      else st)"

text \<open>
  The result of \<open>window.chatApi.import\<close> and the end of \<open>importFileFromPath\<close>, once the
  progress display is over:
  \<^verbatim>\<open>
        if (importResult.success && importResult.sessionId) {
          await loadSessions()
          currentSessionId.value = importResult.sessionId
          return { success: true }
        } else {
          return { success: false, error: importResult.error || '...' }
        }
      } catch (error) {
        return { success: false, error: String(error) }
      } finally {
        isImporting.value = false
        setTimeout(() => { importProgress.value = null }, 500)
      }
  \<close>
  \<open>import_outcome\<close> is what the import call gave, \<open>getSessions\<close> the outcome of the bridge
  call made by \<open>loadSessions\<close>; the state returned is the one after the last timer.
\<close>

record ImportResult =
  success :: bool
  result_sessionId :: opt_string
  result_error :: opt_string

fun error_text :: "js_error \<Rightarrow> jsstring" where
  "error_text TypeError = js ''TypeError''"
| "error_text (Thrown m) = m"

definition importFileFromPath_end ::
  "js_error + ImportResult \<Rightarrow> js_error + 'a AnalysisSession_scheme list
     \<Rightarrow> ('a, 'k, 'z) store_scheme
     \<Rightarrow> (bool \<times> opt_string) \<times> ('a, 'k, 'z) store_scheme \<times> log_entry list" where
  "importFileFromPath_end import_outcome getSessions st =
     (let finally_block = (\<lambda>s. s\<lparr>isImporting := False, importProgress := None\<rparr>)
      in case import_outcome of
           Inl error \<Rightarrow> ((False, Str (error_text error)), finally_block st, [])
         | Inr importResult \<Rightarrow>
             (if success importResult \<and> truthy (result_sessionId importResult)
              then (let (st1, logs) = loadSessions getSessions st
                    in ((True, Undefined),
                        finally_block (st1\<lparr>currentSessionId := result_sessionId importResult\<rparr>), logs))
              else ((False, (if truthy (result_error importResult)
                             then result_error importResult else Str import_failed)),
                    finally_block st, [])))"

text \<open>
  \<^verbatim>\<open>
  async function importFile(): Promise<{ success: boolean; error?: string }> {
    try {
      const result = await window.chatApi.selectFile()
      if (!result || !result.filePath) {
        return { success: false, error: '...' }
      }
      if (result.error) {
        return { success: false, error: result.error }
      }
      return await importFileFromPath(result.filePath)
    } catch (error) {
      return { success: false, error: String(error) }
    }
  }
  \<close>
  The first argument is the outcome of \<open>selectFile()\<close>, \<open>None\<close> for a falsy result.
\<close>

record SelectResult =
  filePath :: opt_string
  select_error :: opt_string

definition no_file_selected :: jsstring where
  "no_file_selected = [0x672A, 0x9009, 0x62E9, 0x6587, 0x4EF6]"

definition importFile ::
  "js_error + SelectResult option \<Rightarrow> js_error + ImportResult
     \<Rightarrow> js_error + 'a AnalysisSession_scheme list \<Rightarrow> ('a, 'k, 'z) store_scheme
     \<Rightarrow> (bool \<times> opt_string) \<times> ('a, 'k, 'z) store_scheme \<times> log_entry list" where
  "importFile selectFile import_outcome getSessions st =
     (case selectFile of
        Inl error \<Rightarrow> ((False, Str (error_text error)), st, [])
      | Inr None \<Rightarrow> ((False, Str no_file_selected), st, [])
      | Inr (Some result) \<Rightarrow>
          (if \<not> truthy (filePath result) then ((False, Str no_file_selected), st, [])
           else if truthy (select_error result) then ((False, select_error result), st, [])
           else importFileFromPath_end import_outcome getSessions st))"

text \<open>
  The actions of the store, the asynchronous ones with the outcomes of their bridge calls.
\<close>

datatype ('a, 'k) action =
    LoadSessions "js_error + 'a AnalysisSession_scheme list"
  | ImportFile "js_error + SelectResult option" "js_error + ImportResult"
      "js_error + 'a AnalysisSession_scheme list"
  | ImportFileFromPath "js_error + ImportResult" "js_error + 'a AnalysisSession_scheme list"
  | SelectSession jsstring
  | DeleteSession jsstring "js_error + bool"
  | RenameSession jsstring jsstring "js_error + bool"
  | ClearSelection
  | ToggleSidebar
  | AddCustomKeywordTemplate "'k KeywordTemplate_scheme"
  | UpdateCustomKeywordTemplate jsstring "'k KeywordTemplate_scheme \<Rightarrow> 'k KeywordTemplate_scheme"
  | RemoveCustomKeywordTemplate jsstring
  | AddDeletedPresetTemplateId jsstring

fun dispatch :: "('a, 'k) action \<Rightarrow> ('a, 'k, 'z) store_scheme \<Rightarrow> ('a, 'k, 'z) store_scheme" where
  "dispatch (LoadSessions r) st = fst (loadSessions r st)"
| "dispatch (ImportFile f r l) st = fst (snd (importFile f r l st))"
| "dispatch (ImportFileFromPath r l) st = fst (snd (importFileFromPath_end r l st))"
| "dispatch (SelectSession i) st = selectSession i st"
| "dispatch (DeleteSession i r) st = fst (snd (deleteSession i r st))"
| "dispatch (RenameSession i n r) st = fst (snd (renameSession i n r st))"
| "dispatch ClearSelection st = clearSelection st"
| "dispatch ToggleSidebar st = toggleSidebar st"
| "dispatch (AddCustomKeywordTemplate t) st = addCustomKeywordTemplate t st"
| "dispatch (UpdateCustomKeywordTemplate i u) st = updateCustomKeywordTemplate i u st"
| "dispatch (RemoveCustomKeywordTemplate i) st = removeCustomKeywordTemplate i st"
| "dispatch (AddDeletedPresetTemplateId i) st = addDeletedPresetTemplateId i st"

section \<open>The progress queue of \<open>importFileFromPath\<close>\<close>

text \<open>
  One call of \<open>importFileFromPath\<close> is a sequence of tasks of the event loop: the progress
  callbacks, the timers the call has set, and the settling of the import promise. The
  state of a call is the store together with the locals the closures share (\<open>queue\<close>,
  \<open>isProcessing\<close>, \<open>currentStage\<close>, \<open>lastStageTime\<close>) and what the event loop holds for it:
  \<^item> \<open>parked\<close>: the activations of \<open>processQueue\<close> suspended at their \<open>await\<close>, each with its
    local \<open>next\<close> and the time before which its timer cannot fire;
  \<^item> \<open>subscribed\<close>: whether the progress listener is still registered;
  \<^item> \<open>phase\<close>: where the body of \<open>importFileFromPath\<close> itself is suspended;
  \<^item> \<open>clock\<close>: the time of the last task (\<open>Date.now()\<close> is constant within a task);
  \<^item> \<open>assigned\<close>: every value \<open>processQueue\<close> has assigned to \<open>importProgress\<close>, with its time.
\<close>

definition MIN_STAGE_TIME :: int where
  "MIN_STAGE_TIME = 1000"

datatype phase =
    Importing
  | Polling int
  | FinalWait int
  | Forced int
  | Failed

record ('a, 'k) import_run = "('a, 'k) store" +
  queue :: "ImportProgress list"
  isProcessing :: bool
  currentStage :: jsstring
  lastStageTime :: int
  parked :: "(ImportProgress \<times> int) list"
  subscribed :: bool
  phase :: phase
  clock :: int
  assigned :: "(int \<times> ImportProgress option) list"

text \<open>The message of the initial progress, a Chinese text followed by three dots.\<close>

definition preparing :: jsstring where
  "preparing = [0x51C6, 0x5907, 0x5BFC, 0x5165, 0x2E, 0x2E, 0x2E]"

text \<open>
  The synchronous start of the call, up to the \<open>await\<close> of the import:
  \<^verbatim>\<open>
        isImporting.value = true
        importProgress.value = { stage: 'detecting', progress: 0, message: '...' }
        const queue: ImportProgress[] = []
        let isProcessing = false
        let currentStage = 'reading'
        let lastStageTime = Date.now()
        const MIN_STAGE_TIME = 1000
        ...
        const unsubscribe = window.chatApi.onImportProgress(...)
        const importResult = await window.chatApi.import(filePath)
  \<close>
\<close>

definition begin_import :: "int \<Rightarrow> ('a, 'k) store \<Rightarrow> ('a, 'k) import_run" where
  "begin_import now st =
     \<lparr>sessions = sessions st,
      currentSessionId = currentSessionId st,
      isImporting = True,
      importProgress = Some \<lparr>stage = js ''detecting'', progress = 0, message = preparing\<rparr>,
      isInitialized = isInitialized st,
      isSidebarCollapsed = isSidebarCollapsed st,
      showSettingModal = showSettingModal st,
      customKeywordTemplates = customKeywordTemplates st,
      deletedPresetTemplateIds = deletedPresetTemplateIds st,
      queue = [],
      isProcessing = False,
      currentStage = js ''reading'',
      lastStageTime = now,
      parked = [],
      subscribed = True,
      phase = Importing,
      clock = now,
      assigned = []\<rparr>"

text \<open>
  Every assignment of \<open>processQueue\<close> to \<open>importProgress\<close>: the store's ref takes the
  value, and \<open>assigned\<close> keeps it with its time.
\<close>

definition assign_importProgress ::
  "int \<Rightarrow> ImportProgress option \<Rightarrow> ('a, 'k) import_run \<Rightarrow> ('a, 'k) import_run" where
  "assign_importProgress now v s =
     s\<lparr>importProgress := v, assigned := assigned s @ [(now, v)]\<rparr>"

text \<open>
  \<open>importProgress.value = queue.shift()!\<close>. On an empty queue \<open>shift\<close> gives \<open>undefined\<close>.
\<close>

definition shift_assign :: "int \<Rightarrow> ('a, 'k) import_run \<Rightarrow> ('a, 'k) import_run" where
  "shift_assign now s =
     (case queue s of
        [] \<Rightarrow> assign_importProgress now None s
      | p # ps \<Rightarrow> assign_importProgress now (Some p) (s\<lparr>queue := ps\<rparr>))"

text \<open>
  The loop of \<open>processQueue\<close>, run until it ends or reaches its \<open>await\<close>:
  \<^verbatim>\<open>
          while (queue.length > 0) {
            const next = queue[0]
            if (next.stage !== currentStage) {
              const elapsed = Date.now() - lastStageTime
              if (elapsed < MIN_STAGE_TIME) {
                await new Promise((resolve) => setTimeout(resolve, MIN_STAGE_TIME - elapsed))
              }
              currentStage = next.stage
              lastStageTime = Date.now()
            }
            importProgress.value = queue.shift()!
          }
          isProcessing = false
  \<close>
  At the \<open>await\<close> the activation is parked; its timer fires \<open>MIN_STAGE_TIME - elapsed\<close>
  milliseconds later at the earliest.
\<close>

function processLoop :: "int \<Rightarrow> ('a, 'k) import_run \<Rightarrow> ('a, 'k) import_run" where
  "processLoop now s =
     (case queue s of
        [] \<Rightarrow> s\<lparr>isProcessing := False\<rparr>
      | next # rest \<Rightarrow>
          if stage next \<noteq> currentStage s
          then (let elapsed = now - lastStageTime s
                in if elapsed < MIN_STAGE_TIME
                   then s\<lparr>parked := parked s @ [(next, now + (MIN_STAGE_TIME - elapsed))]\<rparr>
                   else processLoop now
                          (shift_assign now (s\<lparr>currentStage := stage next, lastStageTime := now\<rparr>)))
          else processLoop now (shift_assign now s))"
  by pat_completeness auto
termination
  by (relation "measure (\<lambda>(now, s). length (queue s))")
    (auto simp: shift_assign_def assign_importProgress_def)

text \<open>
  \<^verbatim>\<open>
        const processQueue = async () => {
          if (isProcessing) return
          isProcessing = true
          ...
  \<close>
\<close>

definition processQueue :: "int \<Rightarrow> ('a, 'k) import_run \<Rightarrow> ('a, 'k) import_run" where
  "processQueue now s =
     (if isProcessing s then s else processLoop now (s\<lparr>isProcessing := True\<rparr>))"

text \<open>
  The listener:
  \<^verbatim>\<open>
        window.chatApi.onImportProgress((progress) => {
          if (progress.stage === 'done') return
          queue.push(progress)
          processQueue()
        })
  \<close>
\<close>

definition onImportProgress ::
  "int \<Rightarrow> ImportProgress \<Rightarrow> ('a, 'k) import_run \<Rightarrow> ('a, 'k) import_run" where
  "onImportProgress now p s =
     (if stage p = js ''done'' then s
      else processQueue now (s\<lparr>queue := queue s @ [p]\<rparr>))"

text \<open>
  The timer of the \<open>k\<close>-th parked activation fires: the activation goes on after its
  \<open>await\<close>, with the \<open>next\<close> it read before.
\<close>

definition resume :: "int \<Rightarrow> nat \<Rightarrow> ('a, 'k) import_run \<Rightarrow> ('a, 'k) import_run" where
  "resume now k s =
     (let next = fst (parked s ! k);
          s1 = s\<lparr>parked := take k (parked s) @ drop (Suc k) (parked s)\<rparr>;
          s2 = s1\<lparr>currentStage := stage next, lastStageTime := now\<rparr>
      in processLoop now (shift_assign now s2))"

text \<open>
  After the import has resolved:
  \<^verbatim>\<open>
        unsubscribe()
        while (queue.length > 0 || isProcessing) {
          await new Promise((resolve) => setTimeout(resolve, 100))
        }
        const elapsed = Date.now() - lastStageTime
        if (elapsed < MIN_STAGE_TIME) {
          await new Promise((resolve) => setTimeout(resolve, MIN_STAGE_TIME - elapsed))
        }
        if (importProgress.value) {
          importProgress.value.progress = 100
        }
  \<close>
\<close>

definition force_complete :: "int \<Rightarrow> ('a, 'k) import_run \<Rightarrow> ('a, 'k) import_run" where
  "force_complete now s =
     s\<lparr>importProgress := map_option (\<lambda>p. p\<lparr>progress := 100\<rparr>) (importProgress s),
       phase := Forced now\<rparr>"

definition last_stage_wait :: "int \<Rightarrow> ('a, 'k) import_run \<Rightarrow> ('a, 'k) import_run" where
  "last_stage_wait now s =
     (let elapsed = now - lastStageTime s
      in if elapsed < MIN_STAGE_TIME
         then s\<lparr>phase := FinalWait (now + (MIN_STAGE_TIME - elapsed))\<rparr>
         else force_complete now s)"

definition wait_for_queue :: "int \<Rightarrow> ('a, 'k) import_run \<Rightarrow> ('a, 'k) import_run" where
  "wait_for_queue now s =
     (if length (queue s) > 0 \<or> isProcessing s then s\<lparr>phase := Polling (now + 100)\<rparr>
      else last_stage_wait now s)"

text \<open>
  The tasks. Each carries the time at which it runs; a task is possible when time does not
  go back, and
  \<^item> \<open>Progress\<close>: the listener is registered;
  \<^item> \<open>QueueTimer t k\<close>: the \<open>k\<close>-th parked activation exists and its delay has passed;
  \<^item> \<open>ImportResolved\<close>, \<open>ImportRejected\<close>: the import is pending (a rejection goes to the
    \<open>catch\<close>, past \<open>unsubscribe\<close> and the waits);
  \<^item> \<open>PollTimer\<close>, \<open>StageTimer\<close>: the body waits on that timer and its delay has passed.
\<close>

datatype event =
    Progress int ImportProgress
  | QueueTimer int nat
  | ImportResolved int
  | ImportRejected int
  | PollTimer int
  | StageTimer int

fun step :: "event \<Rightarrow> ('a, 'k) import_run \<Rightarrow> ('a, 'k) import_run option" where
  "step (Progress t p) s =
     (if clock s \<le> t \<and> subscribed s then Some (onImportProgress t p (s\<lparr>clock := t\<rparr>))
      else None)"
| "step (QueueTimer t k) s =
     (if clock s \<le> t \<and> k < length (parked s) \<and> snd (parked s ! k) \<le> t
      then Some (resume t k (s\<lparr>clock := t\<rparr>)) else None)"
| "step (ImportResolved t) s =
     (if clock s \<le> t \<and> phase s = Importing
      then Some (wait_for_queue t (s\<lparr>clock := t, subscribed := False\<rparr>)) else None)"
| "step (ImportRejected t) s =
     (if clock s \<le> t \<and> phase s = Importing then Some (s\<lparr>clock := t, phase := Failed\<rparr>)
      else None)"
| "step (PollTimer t) s =
     (case phase s of
        Polling d \<Rightarrow> if clock s \<le> t \<and> d \<le> t then Some (wait_for_queue t (s\<lparr>clock := t\<rparr>))
                     else None
      | _ \<Rightarrow> None)"
| "step (StageTimer t) s =
     (case phase s of
        FinalWait d \<Rightarrow> if clock s \<le> t \<and> d \<le> t then Some (force_complete t (s\<lparr>clock := t\<rparr>))
                       else None
      | _ \<Rightarrow> None)"

fun run :: "event list \<Rightarrow> ('a, 'k) import_run \<Rightarrow> ('a, 'k) import_run option" where
  "run [] s = Some s"
| "run (e # es) s = (case step e s of None \<Rightarrow> None | Some s' \<Rightarrow> run es s')"

text \<open>The progress values the listener has put on the queue, in the order of arrival.\<close>

fun enqueued :: "event list \<Rightarrow> ImportProgress list" where
  "enqueued [] = []"
| "enqueued (Progress t p # es) = (if stage p = js ''done'' then enqueued es else p # enqueued es)"
| "enqueued (e # es) = enqueued es"

text \<open>
  What the user sees: the stage on display with the time it was put there, from the
  initial \<open>detecting\<close> on.
\<close>

definition displayed :: "int \<Rightarrow> ('a, 'k) import_run \<Rightarrow> (int \<times> jsstring option) list" where
  "displayed start s =
     (start, Some (js ''detecting'')) # map (\<lambda>(t, p). (t, map_option stage p)) (assigned s)"

text \<open>
  What the store's \<open>importProgress\<close> holds when every value assigned has gone to it: the
  last of the values assigned, or the initial progress when there is none yet, with its
  \<open>progress\<close> set to 100 once the body has forced it.
\<close>

definition on_display :: "phase \<Rightarrow> ImportProgress option list \<Rightarrow> ImportProgress option" where
  "on_display ph vs =
     (let current = (if vs = []
                     then Some \<lparr>stage = js ''detecting'', progress = 0, message = preparing\<rparr>
                     else last vs)
      in case ph of
           Forced t \<Rightarrow> map_option (\<lambda>p. p\<lparr>progress := 100\<rparr>) current
         | _ \<Rightarrow> current)"

text \<open>
  The recursive equation of the loop is unfolded by hand in the proofs.
\<close>

declare processLoop.simps [simp del]

text \<open>
  The state between two tasks: at most one activation is parked; \<open>isProcessing\<close> holds
  exactly when one is; an idle queue is empty; a parked activation waits in front of the
  head of the queue, which is the \<open>next\<close> it read.
\<close>

definition queue_inv :: "('a, 'k) import_run \<Rightarrow> bool" where
  "queue_inv s \<longleftrightarrow>
     length (parked s) \<le> 1
     \<and> (isProcessing s \<longleftrightarrow> parked s \<noteq> [])
     \<and> (\<not> isProcessing s \<longrightarrow> queue s = [])
     \<and> (parked s \<noteq> [] \<longrightarrow> queue s \<noteq> [] \<and> fst (hd (parked s)) = hd (queue s))"

text \<open>
  The timers agree with \<open>lastStageTime\<close>: a parked activation and the last wait of the body
  end \<open>MIN_STAGE_TIME\<close> after it, and the body only waits there once the listener is gone
  and the queue is idle.
\<close>

definition timed_inv :: "('a, 'k) import_run \<Rightarrow> bool" where
  "timed_inv s \<longleftrightarrow>
     queue_inv s
     \<and> list_all (\<lambda>pk. snd pk = lastStageTime s + MIN_STAGE_TIME) (parked s)
     \<and> (case phase s of
           FinalWait d \<Rightarrow> d = lastStageTime s + MIN_STAGE_TIME \<and> \<not> isProcessing s
                            \<and> \<not> subscribed s
         | Polling d \<Rightarrow> \<not> subscribed s
         | _ \<Rightarrow> True)"

text \<open>
  The store's \<open>importProgress\<close> is what the assignments have left there, and the progress
  is only forced once the listener is gone and the queue is idle.
\<close>

definition display_inv :: "('a, 'k) import_run \<Rightarrow> bool" where
  "display_inv s \<longleftrightarrow>
     (case phase s of Forced t \<Rightarrow> \<not> isProcessing s \<and> \<not> subscribed s | _ \<Rightarrow> True)
     \<and> importProgress s = on_display (phase s) (map snd (assigned s))"

section \<open>The auto-updater of the main process\<close>

text \<open>
  What the handlers of \<open>checkUpdate\<close> read of the updater's payloads: \<open>version\<close> and
  \<open>releaseNotes\<close> (a string, an array of notes, or nothing) of the update info, \<open>percent\<close>
  of the download progress.
\<close>

record ReleaseNoteInfo =
  "note" :: opt_string

datatype release_notes = NoNotes | NotesText jsstring | NotesList "ReleaseNoteInfo list"

record UpdateInfo =
  version :: jsstring
  releaseNotes :: release_notes

record ProgressInfo =
  percent :: rat

text \<open>The texts of the dialogs, by their code units.\<close>

definition notes_heading :: jsstring where
  "notes_heading = [0x66F4, 0x65B0, 0x5185, 0x5BB9, 0xFF1A, 0x000A]"

definition ask_install :: jsstring where
  "ask_install = [0x662F, 0x5426, 0x7ACB, 0x5373, 0x4E0B, 0x8F7D, 0x5E76, 0x5B89, 0x88C5,
                  0x65B0, 0x7248, 0x672C, 0xFF1F]"

definition found_version :: jsstring where
  "found_version = [0x53D1, 0x73B0, 0x65B0, 0x7248, 0x672C, 0x0020, 0x0076]"

definition download_now :: jsstring where
  "download_now = [0x7ACB, 0x5373, 0x4E0B, 0x8F7D]"

definition cancel :: jsstring where
  "cancel = [0x53D6, 0x6D88]"

definition download_failed :: jsstring where
  "download_failed = [0x5BA2, 0x6237, 0x7AEF, 0x4E0B, 0x8F7D, 0x5931, 0x8D25]"

definition download_done :: jsstring where
  "download_done = [0x4E0B, 0x8F7D, 0x5B8C, 0x6210]"

definition ready_to_install :: jsstring where
  "ready_to_install = [0x65B0, 0x7248, 0x672C, 0x5DF2, 0x51C6, 0x5907, 0x5C31, 0x7EEA, 0xFF0C,
                       0x662F, 0x5426, 0x73B0, 0x5728, 0x5B89, 0x88C5, 0xFF1F]"

definition install :: jsstring where
  "install = [0x5B89, 0x88C5]"

definition remind_later :: jsstring where
  "remind_later = [0x4E4B, 0x540E, 0x63D0, 0x9192]"

definition later_on_quit :: jsstring where
  "later_on_quit = [0x7A0D, 0x540E, 0xFF08, 0x5E94, 0x7528, 0x9000, 0x51FA, 0x540E, 0x81EA,
                    0x52A8, 0x5B89, 0x88C5, 0xFF09]"

definition up_to_date :: jsstring where
  "up_to_date = [0x5DF2, 0x662F, 0x6700, 0x65B0, 0x7248, 0x672C]"

definition error_title :: jsstring where
  "error_title = [0x9047, 0x5230, 0x9519, 0x8BEF]"

text \<open>
  \<open>s.replace(/<[^>]*>/g, '')\<close>: from a \<open><\<close> up to the next \<open>>\<close> everything goes; a \<open><\<close>
  with no \<open>>\<close> after it stays.
\<close>

function strip_tags :: "jsstring \<Rightarrow> jsstring" where
  "strip_tags [] = []"
| "strip_tags (c # cs) =
     (if c = 0x3C
      then (case dropWhile (\<lambda>d. d \<noteq> 0x3E) cs of
              [] \<Rightarrow> c # strip_tags cs
            | d # rest \<Rightarrow> strip_tags rest)
      else c # strip_tags cs)"
  by pat_completeness auto
termination
proof (relation "measure length")
  fix c d :: code_unit and cs rest :: jsstring
  assume "dropWhile (\<lambda>d. d \<noteq> 0x3E) cs = d # rest"
  then have "length (d # rest) \<le> length cs"
    using length_dropWhile_le [of "\<lambda>d. d \<noteq> 0x3E" cs] by simp
  then show "(rest, c # cs) \<in> measure length" by simp
qed simp_all

text \<open>\<open>xs.join(sep)\<close>.\<close>

fun join :: "jsstring \<Rightarrow> jsstring list \<Rightarrow> jsstring" where
  "join sep [] = []"
| "join sep [x] = x"
| "join sep (x # y # ys) = x @ sep @ join sep (y # ys)"

text \<open>
  \<open>note.note || note\<close> inside a \<open>join\<close>: the note's text, or the note object itself, whose
  string is \<open>[object Object]\<close>.
\<close>

definition note_text :: "ReleaseNoteInfo \<Rightarrow> jsstring" where
  "note_text n = (case note n of Str t \<Rightarrow> if t \<noteq> [] then t else js ''[object Object]''
                               | _ \<Rightarrow> js ''[object Object]'')"

text \<open>
  \<^verbatim>\<open>
    let releaseNotes = ''
    if (info.releaseNotes) {
      if (typeof info.releaseNotes === 'string') {
        releaseNotes = info.releaseNotes
      } else if (Array.isArray(info.releaseNotes)) {
        releaseNotes = info.releaseNotes.map((note) => note.note || note).join('\n')
      }
      releaseNotes = releaseNotes.replace(/<[^>]*>/g, '').trim()
    }
    const detail = releaseNotes ? `...\n${releaseNotes}\n\n...` : '...'
  \<close>
\<close>

definition release_notes_text :: "release_notes \<Rightarrow> jsstring" where
  "release_notes_text rn =
     (case rn of
        NoNotes \<Rightarrow> []
      | NotesText t \<Rightarrow> if t = [] then [] else trim (strip_tags t)
      | NotesList ns \<Rightarrow> trim (strip_tags (join [0x0A] (map note_text ns))))"

definition detail_text :: "release_notes \<Rightarrow> jsstring" where
  "detail_text rn =
     (let releaseNotes = release_notes_text rn
      in if releaseNotes \<noteq> [] then notes_heading @ releaseNotes @ [0x0A, 0x0A] @ ask_install
         else ask_install)"

text \<open>
  What the handlers do to the outside, in order: messages to the renderer
  (\<open>win.webContents.send\<close>), dialogs, console lines and calls of the updater.
\<close>

record message_box =
  box_title :: jsstring
  box_message :: jsstring
  box_detail :: opt_string
  buttons :: "jsstring list"
  defaultId :: int
  cancelId :: int
  box_type :: jsstring
  noLink :: "bool option"

datatype ipc_arg = NoArg | Num rat | Toast jsstring jsstring

datatype console_line =
    LogPercent rat
  | LogText jsstring
  | LogErrorEvent js_error jsstring
  | LogCheckFailed js_error

datatype 'w effect =
    Send 'w jsstring ipc_arg
  | ShowMessageBox message_box
  | ShowErrorBox jsstring jsstring
  | Console console_line
  | DownloadUpdate
  | CheckForUpdates
  | QuitAndInstall

text \<open>
  The closures \<open>checkUpdate\<close> registers (those that use \<open>win\<close> carry it), and the promises
  and timers whose continuations are still to run.
\<close>

datatype 'w handler =
    OnUpdateAvailable
  | OnDownloadProgress 'w
  | OnUpdateDownloaded 'w
  | OnUpdateNotAvailable 'w
  | OnError

datatype 'w continuation =
    AvailableBox
  | DownloadedBox 'w
  | Download
  | Check
  | CheckTimer
  | QuitTimer

record 'w updater =
  autoDownload :: bool
  autoInstallOnAppQuit :: bool
  listeners :: "(jsstring \<times> 'w handler) list"
  isFirstShow :: bool
  showUpdateMessageBox :: bool
  isQuiting :: bool
  isMacOS :: bool
  pending :: "'w continuation list"
  effects :: "'w effect list"

text \<open>The events of the updater, with the names under which listeners are registered.\<close>

datatype emitted =
    UpdateAvailable UpdateInfo
  | DownloadProgress ProgressInfo
  | UpdateDownloaded
  | UpdateNotAvailable UpdateInfo
  | UpdaterError js_error jsstring
  | CheckingForUpdate

fun event_name :: "emitted \<Rightarrow> jsstring" where
  "event_name (UpdateAvailable info) = js ''update-available''"
| "event_name (DownloadProgress p) = js ''download-progress''"
| "event_name UpdateDownloaded = js ''update-downloaded''"
| "event_name (UpdateNotAvailable info) = js ''update-not-available''"
| "event_name (UpdaterError err ev) = js ''error''"
| "event_name CheckingForUpdate = js ''checking-for-update''"

text \<open>
  The bodies of the five handlers, up to the dialogs they open. A handler is only ever
  called with the payload of its own event.
\<close>

fun handle :: "'w handler \<Rightarrow> emitted \<Rightarrow> 'w updater \<Rightarrow> 'w updater" where
  "handle OnUpdateAvailable (UpdateAvailable info) u =
     (if showUpdateMessageBox u then u
      else u\<lparr>showUpdateMessageBox := True,
             pending := pending u @ [AvailableBox],
             effects := effects u @
               [ShowMessageBox
                  \<lparr>box_title = found_version @ version info,
                   box_message = found_version @ version info,
                   box_detail = Str (detail_text (releaseNotes info)),
                   buttons = [download_now, cancel],
                   defaultId = 0, cancelId = 1, box_type = js ''question'', noLink = Some True\<rparr>]\<rparr>)"
| "handle (OnDownloadProgress win) (DownloadProgress progressObj) u =
     u\<lparr>effects := effects u @
          [Console (LogPercent (percent progressObj)),
           Send win (js ''update-download-progress'') (Num (percent progressObj))]\<rparr>"
| "handle (OnUpdateDownloaded win) UpdateDownloaded u =
     u\<lparr>pending := pending u @ [DownloadedBox win],
       effects := effects u @
          [ShowMessageBox
             \<lparr>box_title = download_done,
              box_message = ready_to_install,
              box_detail = Undefined,
              buttons = [install, if isMacOS u then remind_later else later_on_quit],
              defaultId = 1, cancelId = 2, box_type = js ''question'', noLink = None\<rparr>]\<rparr>"
| "handle (OnUpdateNotAvailable win) (UpdateNotAvailable info) u =
     (if isFirstShow u then u\<lparr>isFirstShow := False\<rparr>
      else u\<lparr>effects := effects u @
                 [Send win (js ''show-message'') (Toast (js ''success'') up_to_date)]\<rparr>)"
| "handle OnError (UpdaterError err ev) u =
     u\<lparr>effects := effects u @
          [Console (LogErrorEvent err ev),
           ShowErrorBox error_title (js ''err:'' @ error_text err @ js '', ev:'' @ ev)]\<rparr>"
| "handle h e u = u"

text \<open>\<open>autoUpdater.emit\<close>: the listeners registered under the event's name run in order.\<close>

definition emit :: "emitted \<Rightarrow> 'w updater \<Rightarrow> 'w updater" where
  "emit e u =
     foldl (\<lambda>u h. handle h e u) u
       (map snd (filter (\<lambda>l. fst l = event_name e) (listeners u)))"

text \<open>
  \<^verbatim>\<open>
  const checkUpdate = (win) => {
    autoUpdater.autoDownload = false
    autoUpdater.autoInstallOnAppQuit = true
    let showUpdateMessageBox = false
    autoUpdater.on('update-available', (info) => { ... })
    autoUpdater.on('download-progress', (progressObj) => { ... })
    autoUpdater.on('update-downloaded', () => { ... })
    autoUpdater.on('update-not-available', (info) => { ... })
    autoUpdater.on('error', (err, ev) => { ... })
    setTimeout(() => { autoUpdater.checkForUpdates().catch(...) }, 3000)
  }
  \<close>
\<close>

definition checkUpdate :: "'w \<Rightarrow> 'w updater \<Rightarrow> 'w updater" where
  "checkUpdate win u =
     u\<lparr>autoDownload := False,
       autoInstallOnAppQuit := True,
       showUpdateMessageBox := False,
       listeners := listeners u @
         [(js ''update-available'', OnUpdateAvailable),
          (js ''download-progress'', OnDownloadProgress win),
          (js ''update-downloaded'', OnUpdateDownloaded win),
          (js ''update-not-available'', OnUpdateNotAvailable win),
          (js ''error'', OnError)],
       pending := pending u @ [CheckTimer]\<rparr>"

text \<open>
  The continuations: the answer to a dialog (the index of the button), the settling of
  \<open>downloadUpdate()\<close> and of \<open>checkForUpdates()\<close>, and the two timers.
\<close>

datatype outcome = Answer int | Resolved | Rejected js_error | Fired

fun continue :: "'w continuation \<Rightarrow> outcome \<Rightarrow> 'w updater \<Rightarrow> 'w updater option" where
  "continue AvailableBox (Answer response) u =
     Some (let u1 = u\<lparr>showUpdateMessageBox := False\<rparr>
           in if response = 0
              then u1\<lparr>pending := pending u1 @ [Download],
                      effects := effects u1 @ [DownloadUpdate]\<rparr>
              else u1)"
| "continue Download Resolved u =
     Some (u\<lparr>effects := effects u @ [Console (LogText (js ''wait for post download operation''))]\<rparr>)"
| "continue Download (Rejected downloadError) u =
     Some (u\<lparr>effects := effects u @
                [ShowErrorBox download_failed (js ''err:'' @ error_text downloadError)]\<rparr>)"
| "continue (DownloadedBox win) (Answer response) u =
     Some (if response = 0
           then u\<lparr>isQuiting := True,
                  pending := pending u @ [QuitTimer],
                  effects := effects u @ [Send win (js ''begin-install'') NoArg]\<rparr>
           else u)"
| "continue QuitTimer Fired u = Some (u\<lparr>effects := effects u @ [QuitAndInstall]\<rparr>)"
| "continue CheckTimer Fired u =
     Some (u\<lparr>pending := pending u @ [Check], effects := effects u @ [CheckForUpdates]\<rparr>)"
| "continue Check Resolved u = Some u"
| "continue Check (Rejected err) u =
     Some (u\<lparr>effects := effects u @ [Console (LogCheckFailed err)]\<rparr>)"
| "continue c out u = None"

text \<open>
  A task of the main process: the updater emits an event, or the \<open>k\<close>-th pending
  continuation runs with its outcome.
\<close>

datatype main_event = Emit emitted | Settle nat outcome

fun main_step :: "main_event \<Rightarrow> 'w updater \<Rightarrow> 'w updater option" where
  "main_step (Emit e) u = Some (emit e u)"
| "main_step (Settle k out) u =
     (if k < length (pending u)
      then continue (pending u ! k) out
             (u\<lparr>pending := take k (pending u) @ drop (Suc k) (pending u)\<rparr>)
      else None)"

fun main_run :: "main_event list \<Rightarrow> 'w updater \<Rightarrow> 'w updater option" where
  "main_run [] u = Some u"
| "main_run (e # es) u = (case main_step e u of None \<Rightarrow> None | Some u' \<Rightarrow> main_run es u')"

text \<open>
  The percentages received with \<open>download-progress\<close> events, and those sent to a window
  as \<open>update-download-progress\<close> messages.
\<close>

fun received :: "main_event list \<Rightarrow> rat list" where
  "received [] = []"
| "received (Emit (DownloadProgress progressObj) # es) = percent progressObj # received es"
| "received (e # es) = received es"

fun forwarded :: "'w \<Rightarrow> 'w effect list \<Rightarrow> rat list" where
  "forwarded win [] = []"
| "forwarded win (Send w channel (Num x) # es) =
     (if w = win \<and> channel = js ''update-download-progress'' then x # forwarded win es
      else forwarded win es)"
| "forwarded win (e # es) = forwarded win es"

text \<open>The updater of a process that has just started, with no listener yet.\<close>

definition fresh_updater :: "bool \<Rightarrow> 'w updater" where
  "fresh_updater mac =
     \<lparr>autoDownload = True, autoInstallOnAppQuit = True, listeners = [], isFirstShow = True,
      showUpdateMessageBox = False, isQuiting = False, isMacOS = mac, pending = [],
      effects = []\<rparr>"

text \<open>A store with two sessions, the second one selected; the examples below start from it.\<close>

definition demo_store :: "(unit, unit) store" where
  "demo_store =
     \<lparr>sessions = [\<lparr>session_id = js ''s1'', session_name = js ''Family''\<rparr>,
                  \<lparr>session_id = js ''s2'', session_name = js ''Work''\<rparr>],
      currentSessionId = Str (js ''s2''),
      isImporting = False,
      importProgress = None,
      isInitialized = False,
      isSidebarCollapsed = False,
      showSettingModal = False,
      customKeywordTemplates = [],
      deletedPresetTemplateIds = []\<rparr>"

section \<open>Truncation and version strings: lemmas and properties\<close>

lemma length_slice_0:
  "0 \<le> m \<Longrightarrow> slice xs 0 m = take (nat m) xs"
  by (auto simp: slice_def Let_def min_def max_def)

lemma trimEnd_Cons_keep:
  "\<not> isWhiteSpace c \<Longrightarrow> trimEnd (c # cs) = c # trimEnd cs"
  by (simp add: trimEnd_def dropWhile_append)

lemma trimEnd_no_trailing:
  "trimEnd s \<noteq> [] \<Longrightarrow> \<not> isWhiteSpace (last (trimEnd s))"
proof -
  assume ne: "trimEnd s \<noteq> []"
  then have "dropWhile isWhiteSpace (rev s) \<noteq> []"
    by (simp add: trimEnd_def)
  then have "\<not> isWhiteSpace (hd (dropWhile isWhiteSpace (rev s)))"
    by (rule hd_dropWhile)
  moreover have "last (trimEnd s) = hd (dropWhile isWhiteSpace (rev s))"
    using ne by (simp add: trimEnd_def last_rev)
  ultimately show ?thesis by simp
qed

lemma trimEnd_id:
  "s \<noteq> [] \<Longrightarrow> \<not> isWhiteSpace (last s) \<Longrightarrow> trimEnd s = s"
proof -
  assume "s \<noteq> []" and "\<not> isWhiteSpace (last s)"
  then have "dropWhile isWhiteSpace (rev s) = rev s"
    by (cases "rev s") (auto simp: last_rev hd_rev)
  then show ?thesis by (simp add: trimEnd_def)
qed

lemma trimStart_id:
  "s \<noteq> [] \<Longrightarrow> \<not> isWhiteSpace (hd s) \<Longrightarrow> trimStart s = s"
  by (cases s) (simp_all add: trimStart_def)

lemma trim_no_trailing:
  "trim s \<noteq> [] \<Longrightarrow> \<not> isWhiteSpace (last (trim s))"
  unfolding trim_def by (rule trimEnd_no_trailing)

lemma last_replace_leading_v:
  "replace_leading_v s \<noteq> [] \<Longrightarrow> last (replace_leading_v s) = last s"
  by (cases s) (auto split: if_splits)

lemma trim_fixed:
  "t \<noteq> [] \<Longrightarrow> \<not> isWhiteSpace (hd t) \<Longrightarrow> \<not> isWhiteSpace (last t) \<Longrightarrow> trim t = t"
  by (simp add: trim_def trimStart_id trimEnd_id)

lemma replace_leading_v_id:
  "t \<noteq> [] \<Longrightarrow> hd t \<noteq> 0x76 \<Longrightarrow> hd t \<noteq> 0x56 \<Longrightarrow> replace_leading_v t = t"
  by (cases t) simp_all

lemma v_not_whitespace: "\<not> isWhiteSpace 0x76" "\<not> isWhiteSpace 0x56"
  by (simp_all add: isWhiteSpace_def)

lemma normalizeVersion_prefixed:
  assumes "c = 0x76 \<or> c = 0x56"
  shows "normalizeVersion (Str (c # x)) = Str (trimEnd x)"
proof -
  have nw: "\<not> isWhiteSpace c"
    using assms v_not_whitespace by auto
  have "trim (c # x) = c # trimEnd x"
    using nw by (simp add: trim_def trimStart_def trimEnd_Cons_keep)
  then show ?thesis
    using assms by (auto simp: normalizeVersion_def)
qed

lemma trimEnd_hd:
  "x \<noteq> [] \<Longrightarrow> \<not> isWhiteSpace (hd x) \<Longrightarrow> trimEnd x \<noteq> [] \<and> hd (trimEnd x) = hd x"
  by (cases x) (simp_all add: trimEnd_Cons_keep)

lemma normalizeVersion_unprefixed:
  assumes "x \<noteq> []" "\<not> isWhiteSpace (hd x)" "hd x \<noteq> 0x76" "hd x \<noteq> 0x56"
  shows "normalizeVersion (Str x) = Str (trimEnd x)"
proof -
  have "trim x = trimEnd x"
    using assms by (simp add: trim_def trimStart_id)
  moreover have "replace_leading_v (trimEnd x) = trimEnd x"
    using assms trimEnd_hd [of x] by (simp add: replace_leading_v_id)
  ultimately show ?thesis
    using assms by (simp add: normalizeVersion_def)
qed

text \<open>
  C3 as stated fails for a negative \<open>maxLength\<close>: \<open>'abc'.slice(0, -1)\<close> is \<open>'ab'\<close>, so
  \<open>truncateContent('abc', -1)\<close> is \<open>'ab...'\<close>, of length 5, more than \<open>-1 + 3\<close>, and it is
  not "the first \<open>maxLength\<close> characters" followed by the dots.
\<close>

theorem truncateContent_negative_counterexample:
  "\<not> (int (length (truncateContent (js ''abc'') (Some (- 1)))) \<le> - 1 + 3)
   \<and> truncateContent (js ''abc'') (Some (- 1)) = js ''ab...''"
  by (simp add: truncateContent_def slice_def js_def)

text \<open>
  C3, amended: for every string \<open>content\<close> and every non-negative integer \<open>maxLength\<close>,
  \<open>truncateContent(content, maxLength)\<close> has length at most \<open>maxLength + 3\<close>; it is \<open>content\<close>
  itself when \<open>content.length <= maxLength\<close>, and otherwise the first \<open>maxLength\<close> code units
  of \<open>content\<close> followed by \<open>'...'\<close>. Leaving \<open>maxLength\<close> out is the same as passing 30.
\<close>

theorem truncateContent_bound:
  "0 \<le> maxLength \<longrightarrow>
     int (length (truncateContent content (Some maxLength))) \<le> maxLength + 3
     \<and> (int (length content) \<le> maxLength \<longrightarrow>
          truncateContent content (Some maxLength) = content)
     \<and> (\<not> int (length content) \<le> maxLength \<longrightarrow>
          truncateContent content (Some maxLength) = take (nat maxLength) content @ js ''...'')
     \<and> truncateContent content None = truncateContent content (Some 30)"
  by (auto simp: truncateContent_def length_slice_0 js_def)

theorem truncateContent_bound_witness:
  "(0::int) \<le> 2
   \<and> int (length (truncateContent (js ''hello'') (Some 2))) \<le> 2 + 3
   \<and> \<not> int (length (js ''hello'')) \<le> 2
   \<and> truncateContent (js ''hello'') (Some 2) = js ''he...''
   \<and> int (length (js ''hi'')) \<le> 2
   \<and> truncateContent (js ''hi'') (Some 2) = js ''hi''"
  using truncateContent_bound [of 2 "js ''hello''"] truncateContent_bound [of 2 "js ''hi''"]
  by (simp add: js_def)

lemma trimStart_whitespace:
  "list_all isWhiteSpace ws \<Longrightarrow> trimStart (ws @ s) = trimStart s"
  by (simp add: trimStart_def dropWhile_append2 list_all_iff)

lemma trimEnd_whitespace:
  "list_all isWhiteSpace ws \<Longrightarrow> trimEnd (s @ ws) = trimEnd s"
proof -
  assume "list_all isWhiteSpace ws"
  then have "\<And>x. x \<in> set (rev ws) \<Longrightarrow> isWhiteSpace x"
    by (simp add: list_all_iff)
  then have "dropWhile isWhiteSpace (rev ws @ rev s) = dropWhile isWhiteSpace (rev s)"
    by (rule dropWhile_append2)
  then show ?thesis
    by (simp add: trimEnd_def)
qed

lemma trim_padded:
  assumes "list_all isWhiteSpace ws" "list_all isWhiteSpace ws'"
  shows "trim (ws @ s @ ws') = trim s"
proof (cases "list_all isWhiteSpace s")
  case True
  then have "list_all isWhiteSpace (s @ ws')"
    using assms(2) by simp
  then have "trimStart (s @ ws') = []" "trimStart s = []"
    using True by (simp_all add: trimStart_def list_all_iff)
  then show ?thesis
    using assms(1) by (simp add: trim_def trimStart_whitespace)
next
  case False
  then obtain c where "c \<in> set s" "\<not> isWhiteSpace c"
    by (auto simp: list_all_iff)
  then have "trimStart (s @ ws') = trimStart s @ ws'"
    by (simp add: trimStart_def dropWhile_append1)
  then show ?thesis
    using assms by (simp add: trim_def trimStart_whitespace trimEnd_whitespace)
qed

lemma trim_decompose:
  "\<exists>ws1 ws2. s = ws1 @ trim s @ ws2 \<and> list_all isWhiteSpace ws1 \<and> list_all isWhiteSpace ws2"
proof -
  let ?d = "dropWhile isWhiteSpace s"
  have a: "s = takeWhile isWhiteSpace s @ ?d"
    by simp
  have "rev ?d = takeWhile isWhiteSpace (rev ?d) @ dropWhile isWhiteSpace (rev ?d)"
    by simp
  then have "?d = rev (dropWhile isWhiteSpace (rev ?d)) @ rev (takeWhile isWhiteSpace (rev ?d))"
    by (metis rev_append rev_rev_ident)
  then have b: "?d = trim s @ rev (takeWhile isWhiteSpace (rev ?d))"
    by (simp add: trim_def trimStart_def trimEnd_def)
  have "list_all isWhiteSpace (takeWhile isWhiteSpace s)"
    "list_all isWhiteSpace (rev (takeWhile isWhiteSpace (rev ?d)))"
    by (auto simp: list_all_iff dest: set_takeWhileD)
  then show ?thesis
    using a b by metis
qed

lemma trim_no_leading:
  "trim s \<noteq> [] \<Longrightarrow> \<not> isWhiteSpace (hd (trim s))"
proof -
  assume ne: "trim s \<noteq> []"
  then have d: "trimStart s \<noteq> []"
    by (auto simp: trim_def trimEnd_def)
  then have "\<not> isWhiteSpace (hd (trimStart s))"
    unfolding trimStart_def by (rule hd_dropWhile)
  then show ?thesis
    using d trimEnd_hd [of "trimStart s"] by (simp add: trim_def)
qed

lemma replace_leading_v_tl:
  "replace_leading_v t = (if t \<noteq> [] \<and> (hd t = 0x76 \<or> hd t = 0x56) then tl t else t)"
  by (cases t) simp_all

text \<open>
  C10 as stated fails: \<open>normalizeVersion\<close> removes one leading \<open>v\<close> only, so it is not
  idempotent. \<open>normalizeVersion('vv1')\<close> is \<open>'v1'\<close> and \<open>normalizeVersion('v1')\<close> is \<open>'1'\<close>.
\<close>

theorem normalizeVersion_idempotent_counterexample:
  "normalizeVersion (normalizeVersion (Str (js ''vv1''))) \<noteq> normalizeVersion (Str (js ''vv1''))"
  by (simp add: normalizeVersion_def trim_def trimStart_def trimEnd_def isWhiteSpace_def js_def)

text \<open>
  C10, amended: \<open>normalizeVersion\<close> of \<open>null\<close>, \<open>undefined\<close> and the empty string is \<open>null\<close>.
  Of any other string it is the string without its surrounding whitespace and without one
  leading \<open>v\<close> or \<open>V\<close> (one, not all of them), so whitespace around a non-empty version
  string changes neither \<open>normalizeVersion\<close> nor \<open>isCurrentVersion\<close>, in the version asked
  about or in the current application version.
  \<open>normalizeVersion(normalizeVersion(s)) = normalizeVersion(s)\<close> holds for every \<open>s\<close> whose
  normal form is a non-empty string that begins with neither \<open>v\<close>/\<open>V\<close> nor whitespace; and
  for every string \<open>x\<close> that does not itself begin with whitespace or \<open>v\<close>/\<open>V\<close>,
  \<open>isCurrentVersion\<close> gives the same result for \<open>x\<close>, \<open>'v' + x\<close> and \<open>'V' + x\<close>, whatever the
  current application version is.
\<close>

theorem normalizeVersion_properties:
  "normalizeVersion Null = Null
   \<and> normalizeVersion Undefined = Null
   \<and> normalizeVersion (Str []) = Null
   \<and> (s \<noteq> [] \<longrightarrow>
        (\<exists>ws1 t ws2. s = ws1 @ t @ ws2
           \<and> list_all isWhiteSpace ws1 \<and> list_all isWhiteSpace ws2
           \<and> (t = [] \<or> (\<not> isWhiteSpace (hd t) \<and> \<not> isWhiteSpace (last t)))
           \<and> normalizeVersion (Str s)
               = Str (if t \<noteq> [] \<and> (hd t = 0x76 \<or> hd t = 0x56) then tl t else t)))
   \<and> (s \<noteq> [] \<and> list_all isWhiteSpace ws \<and> list_all isWhiteSpace ws' \<longrightarrow>
        normalizeVersion (Str (ws @ s @ ws')) = normalizeVersion (Str s))
   \<and> (list_all isWhiteSpace ws \<and> list_all isWhiteSpace ws' \<longrightarrow>
        isCurrentVersion cur (ws @ x @ ws') = isCurrentVersion cur x
        \<and> isCurrentVersion (Str (ws @ c @ ws')) x = isCurrentVersion (Str c) x)
   \<and> (\<forall>t. normalizeVersion v = Str t \<and> t \<noteq> [] \<and> \<not> isWhiteSpace (hd t)
            \<and> hd t \<noteq> 0x76 \<and> hd t \<noteq> 0x56
          \<longrightarrow> normalizeVersion (normalizeVersion v) = normalizeVersion v)
   \<and> (x = [] \<or> (\<not> isWhiteSpace (hd x) \<and> hd x \<noteq> 0x76 \<and> hd x \<noteq> 0x56)
        \<longrightarrow> isCurrentVersion cur (0x76 # x) = isCurrentVersion cur x
          \<and> isCurrentVersion cur (0x56 # x) = isCurrentVersion cur x)"
proof -
  have nulls: "normalizeVersion Null = Null" "normalizeVersion Undefined = Null"
    "normalizeVersion (Str []) = Null"
    by (simp_all add: normalizeVersion_def)
  have shape: "\<exists>ws1 t ws2. s = ws1 @ t @ ws2
           \<and> list_all isWhiteSpace ws1 \<and> list_all isWhiteSpace ws2
           \<and> (t = [] \<or> (\<not> isWhiteSpace (hd t) \<and> \<not> isWhiteSpace (last t)))
           \<and> normalizeVersion (Str s)
               = Str (if t \<noteq> [] \<and> (hd t = 0x76 \<or> hd t = 0x56) then tl t else t)"
    if "s \<noteq> []"
  proof -
    obtain ws1 ws2 where d: "s = ws1 @ trim s @ ws2" "list_all isWhiteSpace ws1"
        "list_all isWhiteSpace ws2"
      using trim_decompose by blast
    have e: "trim s = [] \<or> (\<not> isWhiteSpace (hd (trim s)) \<and> \<not> isWhiteSpace (last (trim s)))"
      using trim_no_leading trim_no_trailing by blast
    have "normalizeVersion (Str s)
        = Str (if trim s \<noteq> [] \<and> (hd (trim s) = 0x76 \<or> hd (trim s) = 0x56)
               then tl (trim s) else trim s)"
      using that replace_leading_v_tl [of "trim s"] by (simp add: normalizeVersion_def)
    then show ?thesis
      using d e by blast
  qed
  have pad: "normalizeVersion (Str (ws @ s @ ws')) = normalizeVersion (Str s)"
    if "s \<noteq> []" "list_all isWhiteSpace ws" "list_all isWhiteSpace ws'"
    using that by (simp add: normalizeVersion_def trim_padded)
  have pad_any: "normalizeVersion (Str (ws @ y @ ws')) = normalizeVersion (Str y)
      \<or> (normalizeVersion (Str (ws @ y @ ws')) = Str [] \<and> normalizeVersion (Str y) = Null)"
    if w: "list_all isWhiteSpace ws" "list_all isWhiteSpace ws'" for y
  proof (cases "y = []")
    case False
    then show ?thesis
      using w by (simp add: normalizeVersion_def trim_padded)
  next
    case True
    have e: "trim [] = []"
      by (simp add: trim_def trimStart_def trimEnd_def)
    have "trim (ws @ ws') = trim []"
      using trim_padded [OF w, of "[]"] by simp
    then have "trim (ws @ ws') = []"
      by (simp only: e)
    then show ?thesis
      using True by (simp add: normalizeVersion_def)
  qed
  have cur_pad: "isCurrentVersion cur (ws @ x @ ws') = isCurrentVersion cur x
        \<and> isCurrentVersion (Str (ws @ c @ ws')) x = isCurrentVersion (Str c) x"
    if w: "list_all isWhiteSpace ws" "list_all isWhiteSpace ws'"
  proof -
    have "isCurrentVersion cur (ws @ x @ ws') = isCurrentVersion cur x"
      using pad_any [OF w, of x]
      by (cases "normalizeVersion cur") (auto simp: isCurrentVersion_def Let_def)
    moreover have "isCurrentVersion (Str (ws @ c @ ws')) x = isCurrentVersion (Str c) x"
      using pad_any [OF w, of c] by (auto simp: isCurrentVersion_def Let_def)
    ultimately show ?thesis by simp
  qed
  have idem: "normalizeVersion (normalizeVersion v) = normalizeVersion v"
    if t: "normalizeVersion v = Str t" "t \<noteq> []" "\<not> isWhiteSpace (hd t)"
      "hd t \<noteq> 0x76" "hd t \<noteq> 0x56" for t
  proof -
    obtain u where s: "v = Str u" "u \<noteq> []" and tv: "t = replace_leading_v (trim u)"
      using t(1) by (cases v) (auto simp: normalizeVersion_def split: if_splits)
    have "trim u \<noteq> []"
      using tv t(2) by auto
    then have "\<not> isWhiteSpace (last (trim u))"
      by (rule trim_no_trailing)
    then have "\<not> isWhiteSpace (last t)"
      using tv t(2) by (simp add: last_replace_leading_v)
    then have "trim t = t"
      using t by (simp add: trim_fixed)
    moreover have "replace_leading_v t = t"
      using t by (simp add: replace_leading_v_id)
    ultimately have "normalizeVersion (Str t) = Str t"
      using t(2) by (simp add: normalizeVersion_def)
    then show ?thesis
      using t(1) by simp
  qed
  have pre: "isCurrentVersion cur (k # x) = isCurrentVersion cur x"
    if x: "x = [] \<or> (\<not> isWhiteSpace (hd x) \<and> hd x \<noteq> 0x76 \<and> hd x \<noteq> 0x56)"
      and k: "k = 0x76 \<or> k = 0x56" for k
  proof (cases "x = []")
    case True
    have "normalizeVersion (Str [k]) = Str []"
      using normalizeVersion_prefixed [OF k, of "[]"] by (simp add: trimEnd_def)
    then show ?thesis
      using True by (auto simp: isCurrentVersion_def Let_def nulls elim: truthy.elims)
  next
    case False
    then have "normalizeVersion (Str x) = Str (trimEnd x)"
      using x by (simp add: normalizeVersion_unprefixed)
    then show ?thesis
      using normalizeVersion_prefixed [OF k, of x] by (simp add: isCurrentVersion_def)
  qed
  show ?thesis
    using nulls shape pad cur_pad idem pre by blast
qed

theorem normalizeVersion_properties_witness:
  "normalizeVersion (Str (js '' v1.2.0 '')) = Str (js ''1.2.0'')
   \<and> normalizeVersion (Str (js '' v1.2.0 '')) = normalizeVersion (Str (js ''v1.2.0''))
   \<and> normalizeVersion (normalizeVersion (Str (js '' v1.2.0 '')))
       = normalizeVersion (Str (js '' v1.2.0 ''))
   \<and> isCurrentVersion (Str (js ''V1.2.0'')) (js ''v1.2.0'')
       = isCurrentVersion (Str (js ''V1.2.0'')) (js ''1.2.0'')
   \<and> isCurrentVersion (Str (js ''V1.2.0'')) (js '' 1.2.0 '')
       = isCurrentVersion (Str (js ''V1.2.0'')) (js ''1.2.0'')
   \<and> isCurrentVersion (Str (js ''V1.2.0'')) (js ''1.2.0'')"
proof -
  have n: "normalizeVersion (Str (js '' v1.2.0 '')) = Str (js ''1.2.0'')"
    by (simp add: normalizeVersion_def trim_def trimStart_def trimEnd_def isWhiteSpace_def
        js_def)
  have h: "js ''1.2.0'' \<noteq> [] \<and> \<not> isWhiteSpace (hd (js ''1.2.0''))
      \<and> hd (js ''1.2.0'') \<noteq> 0x76 \<and> hd (js ''1.2.0'') \<noteq> 0x56"
    by (simp add: isWhiteSpace_def js_def)
  have w: "list_all isWhiteSpace (js '' '')" "js ''v1.2.0'' \<noteq> []"
    by (simp_all add: isWhiteSpace_def js_def)
  have c: "isCurrentVersion (Str (js ''V1.2.0'')) (js ''1.2.0'')"
    by (simp add: isCurrentVersion_def normalizeVersion_def trim_def trimStart_def
        trimEnd_def isWhiteSpace_def js_def)
  have v: "js ''v1.2.0'' = 0x76 # js ''1.2.0''"
    "js '' v1.2.0 '' = js '' '' @ js ''v1.2.0'' @ js '' ''"
    "js '' 1.2.0 '' = js '' '' @ js ''1.2.0'' @ js '' ''"
    by (simp_all add: js_def)
  have p1: "normalizeVersion (Str (js '' '' @ js ''v1.2.0'' @ js '' ''))
      = normalizeVersion (Str (js ''v1.2.0''))"
    using normalizeVersion_properties [where s = "js ''v1.2.0''" and ws = "js '' ''"
        and ws' = "js '' ''"] w by blast
  have p2: "isCurrentVersion (Str (js ''V1.2.0'')) (js '' '' @ js ''1.2.0'' @ js '' '')
      = isCurrentVersion (Str (js ''V1.2.0'')) (js ''1.2.0'')"
    using normalizeVersion_properties [where x = "js ''1.2.0''" and ws = "js '' ''"
        and ws' = "js '' ''" and cur = "Str (js ''V1.2.0'')"] w by blast
  have p3: "normalizeVersion (normalizeVersion (Str (js '' v1.2.0 '')))
       = normalizeVersion (Str (js '' v1.2.0 ''))
    \<and> isCurrentVersion (Str (js ''V1.2.0'')) (0x76 # js ''1.2.0'')
       = isCurrentVersion (Str (js ''V1.2.0'')) (js ''1.2.0'')"
    using normalizeVersion_properties [where v = "Str (js '' v1.2.0 '')" and x = "js ''1.2.0''"
        and cur = "Str (js ''V1.2.0'')"] n h by blast
  have g2: "normalizeVersion (Str (js '' v1.2.0 '')) = normalizeVersion (Str (js ''v1.2.0''))"
    unfolding v(2) by (rule p1)
  have g4: "isCurrentVersion (Str (js ''V1.2.0'')) (js ''v1.2.0'')
       = isCurrentVersion (Str (js ''V1.2.0'')) (js ''1.2.0'')"
    unfolding v(1) using p3 by blast
  have g5: "isCurrentVersion (Str (js ''V1.2.0'')) (js '' 1.2.0 '')
       = isCurrentVersion (Str (js ''V1.2.0'')) (js ''1.2.0'')"
    unfolding v(3) by (rule p2)
  show ?thesis
    using n g2 p3 g4 g5 c by blast
qed

section \<open>Ranking list: lemmas and properties\<close>

lemma floor_rat_numeral:
  "\<lfloor>(numeral a :: rat) / numeral b\<rfloor> = numeral a div numeral b"
  using floor_divide_of_int_eq [of "numeral a" "numeral b", where ?'a = rat] by simp

lemmas double_eval =
  to_double_def scale_up.simps scale_down.simps round_even_def floor_rat_numeral Let_def

lemma round_even_bounds:
  assumes "0 \<le> x" "x \<le> of_int b"
  shows "0 \<le> round_even x \<and> round_even x \<le> b"
proof -
  have f0: "0 \<le> \<lfloor>x\<rfloor>" using assms(1) by simp
  have fb: "\<lfloor>x\<rfloor> \<le> b" using assms(2) by (simp add: floor_le_iff)
  have up: "\<lfloor>x\<rfloor> + 1 \<le> b" if "x \<noteq> of_int \<lfloor>x\<rfloor>"
  proof -
    have "of_int \<lfloor>x\<rfloor> \<le> x" by (rule of_int_floor_le)
    then have "of_int \<lfloor>x\<rfloor> < x" using that [symmetric] by (rule le_neq_trans)
    then have "of_int \<lfloor>x\<rfloor> < (of_int b :: rat)" using assms(2) by simp
    then show ?thesis by simp
  qed
  show ?thesis
    unfolding round_even_def Let_def using f0 fb up by auto
qed

lemma scale_down_bounds:
  "0 \<le> x \<Longrightarrow> x \<le> of_int b \<Longrightarrow> 0 \<le> scale_down x e \<and> scale_down x e \<le> of_int b"
proof (induction x e arbitrary: b rule: scale_down.induct)
  case (1 x e)
  show ?case
  proof (cases "x < 2 ^ 52 \<and> - 1074 < e")
    case True
    have "0 \<le> 2 * x" "2 * x \<le> of_int (2 * b)"
      using 1(2,3) by simp_all
    then have "0 \<le> scale_down (2 * x) (e - 1) \<and> scale_down (2 * x) (e - 1) \<le> of_int (2 * b)"
      using 1(1) True by blast
    moreover have "scale_down x e = scale_down (2 * x) (e - 1) / 2"
      using True by (subst scale_down.simps) (simp only: if_P)
    ultimately show ?thesis by simp
  next
    case False
    have "0 \<le> round_even x \<and> round_even x \<le> b"
      using 1(2,3) by (rule round_even_bounds)
    moreover have "scale_down x e = of_int (round_even x)"
      using False by (subst scale_down.simps) (simp only: if_not_P if_False)
    ultimately show ?thesis by simp
  qed
qed

lemma to_double_bounds:
  assumes "0 \<le> x" "x \<le> of_int b" "b < 2 ^ 53"
  shows "\<exists>m. to_double s x = Finite s m \<and> 0 \<le> m \<and> m \<le> of_int b"
proof -
  have "(of_int b :: rat) < of_int (2 ^ 53)"
    using assms(3) by (simp only: of_int_less_iff)
  then have x: "x < 2 ^ 53" using assms(2) by simp
  then have u: "scale_up x = scale_down x 0"
    by (subst scale_up.simps) simp
  have b: "0 \<le> scale_down x 0 \<and> scale_down x 0 \<le> of_int b"
    using assms(1,2) by (rule scale_down_bounds)
  have "(of_int b :: rat) < 2 ^ 1024"
    using \<open>(of_int b :: rat) < of_int (2 ^ 53)\<close> by simp
  then have "\<not> 2 ^ 1024 \<le> scale_down x 0" using b by simp
  then show ?thesis
    using u b by (simp add: to_double_def)
qed

lemma to_double_zero: "to_double s 0 = Finite s 0"
  using to_double_bounds [of 0 0 s] by auto

lemma percent_of_ratio:
  assumes "0 \<le> v" "v \<le> m" "0 < m"
  shows "\<exists>k. Math_round (js_mul (js_div (Finite False v) (Finite False m)) (Finite False 100))
             = Finite False (of_int k) \<and> 0 \<le> k \<and> k \<le> 100"
proof -
  have "0 \<le> v / m" "v / m \<le> of_int 1"
    using assms by simp_all
  then obtain q where q: "to_double False (v / m) = Finite False q" "0 \<le> q" "q \<le> of_int 1"
    using to_double_bounds [of "v / m" 1 False] by auto
  have "0 \<le> q * 100" "q * 100 \<le> of_int 100"
    using q(2,3) by simp_all
  then obtain p where p: "to_double False (q * 100) = Finite False p" "0 \<le> p" "p \<le> of_int 100"
    using to_double_bounds [of "q * 100" 100 False] by auto
  have r: "0 \<le> \<lfloor>p + 1 / 2\<rfloor>" "\<lfloor>p + 1 / 2\<rfloor> \<le> 100"
    using p(2,3) by (simp_all add: le_floor_iff floor_le_iff)
  have "Math_round (js_mul (js_div (Finite False v) (Finite False m)) (Finite False 100))
      = Finite False (of_int \<lfloor>p + 1 / 2\<rfloor>)"
    using assms(3) q(1) p(1) r by (simp add: Let_def)
  then show ?thesis using r by blast
qed

lemma percent_of_negative_zero:
  assumes "0 < m"
  shows "Math_round (js_mul (js_div (Finite True 0) (Finite False m)) (Finite False 100))
           = Finite True 0"
  using assms by (simp add: to_double_zero Let_def floor_eq_iff)

lemma first_is_Max:
  assumes "dm \<noteq> []" "\<forall>m \<in> set dm. f m \<le> f (hd dm)"
  shows "f (hd dm) = Max (f ` set dm)"
proof -
  have "f (hd dm) \<in> f ` set dm"
    using assms(1) by simp
  moreover have "\<forall>y \<in> f ` set dm. y \<le> f (hd dm)"
    using assms(2) by auto
  ultimately show ?thesis
    by (intro Max_eqI [symmetric]) auto
qed

lemma between_zero_and_first:
  assumes "is_double a" "js_le (Finite False 0) a" "js_le a (Finite s0 M)"
  shows "\<exists>s v. a = Finite s v \<and> 0 \<le> v \<and> (s \<longrightarrow> v = 0) \<and> v \<le> (if s0 then - M else M)"
proof (cases a)
  case (Finite s v)
  then show ?thesis
    using assms by (auto split: if_splits)
next
  case (Infinity s)
  then show ?thesis using assms by auto
next
  case NaN
  then show ?thesis using assms by simp
qed

text \<open>
  In double arithmetic the percentage is not always the rounded exact one: 23 of 40 is
  57.5 per cent, and 29 of 200 is 14.5 per cent, but the quotients 0.575 and 0.145 are
  rounded down to the nearest double, their products with 100 stay below the half, and
  \<open>Math.round\<close> gives 57 and 14.
\<close>

lemma getRelativePercentage_double_rounding:
  "getRelativePercentage
     [\<lparr>item_id = js ''a'', item_name = js ''A'', value = Finite False 40,
        percentage = Finite False 63\<rparr>,
      \<lparr>item_id = js ''b'', item_name = js ''B'', value = Finite False 23,
        percentage = Finite False 37\<rparr>] 0 1 = Inr (Finite False 57)
   \<and> getRelativePercentage
     [\<lparr>item_id = js ''a'', item_name = js ''A'', value = Finite False 200,
        percentage = Finite False 87\<rparr>,
      \<lparr>item_id = js ''b'', item_name = js ''B'', value = Finite False 29,
        percentage = Finite False 13\<rparr>] 0 1 = Inr (Finite False 14)"
  by (simp add: getRelativePercentage_def displayMembers_def double_eval)




section \<open>Failure handling of the loaders\<close>

text \<open>
  C5: when the bridge call of \<open>loadRepeatAnalysis\<close> or \<open>loadCatchphraseAnalysis\<close> throws,
  the error is caught and logged, the loading flag is false afterwards and nothing else of
  the component's state changes, so the stored analysis is the previous one; when
  \<open>getSessions\<close> throws in \<open>loadSessions\<close>, the error is caught and logged, \<open>isInitialized\<close>
  is set and nothing else of the store changes, so \<open>sessions\<close> is the previous list.
\<close>

theorem load_failure_keeps_data:
  "(sessionId props \<noteq> [] \<and> getRepeatAnalysis (sessionId props) (timeFilter props) = Inl e \<longrightarrow>
      loadRepeatAnalysis props getRepeatAnalysis rt
        = (rt\<lparr>isLoading := False\<rparr>, [ConsoleError repeat_failed e])
      \<and> repeatAnalysis (fst (loadRepeatAnalysis props getRepeatAnalysis rt)) = repeatAnalysis rt
      \<and> \<not> isLoading (fst (loadRepeatAnalysis props getRepeatAnalysis rt)))
   \<and> (sessionId props \<noteq> [] \<and> getCatchphraseAnalysis (sessionId props) (timeFilter props) = Inl e \<longrightarrow>
      loadCatchphraseAnalysis props getCatchphraseAnalysis ct
        = (ct\<lparr>isLoadingCatchphrase := False\<rparr>, [ConsoleError catchphrase_failed e])
      \<and> catchphraseAnalysis (fst (loadCatchphraseAnalysis props getCatchphraseAnalysis ct))
          = catchphraseAnalysis ct
      \<and> \<not> isLoadingCatchphrase (fst (loadCatchphraseAnalysis props getCatchphraseAnalysis ct)))
   \<and> (sessionId props \<noteq> [] \<and> getRepeatAnalysis (sessionId props) (timeFilter props) = Inl e \<longrightarrow>
      loadRepeatAnalysis_c props getRepeatAnalysis ct
        = (ct\<lparr>isLoadingRepeat := False\<rparr>, [ConsoleError repeat_failed e]))
   \<and> loadSessions (Inl e) st = (st\<lparr>isInitialized := True\<rparr>, [ConsoleError sessions_failed e])
   \<and> sessions (fst (loadSessions (Inl e) st)) = sessions st
   \<and> isInitialized (fst (loadSessions (Inl e) st))"
  by (simp add: loadRepeatAnalysis_def loadCatchphraseAnalysis_def loadRepeatAnalysis_c_def
      loadSessions_def)

theorem load_failure_keeps_data_witness:
  "sessionId \<lparr>sessionId = js ''s1'', timeFilter = None\<rparr> \<noteq> []
   \<and> loadRepeatAnalysis \<lparr>sessionId = js ''s1'', timeFilter = None\<rparr>
        (\<lambda>sid tf. Inl (Thrown (js ''boom''))) \<lparr>repeatAnalysis = Some (7::nat), isLoading = False\<rparr>
      = (\<lparr>repeatAnalysis = Some 7, isLoading = False\<rparr>,
         [ConsoleError repeat_failed (Thrown (js ''boom''))])
   \<and> loadCatchphraseAnalysis \<lparr>sessionId = js ''s1'', timeFilter = None\<rparr>
        (\<lambda>sid tf. Inl (Thrown (js ''boom'')))
        \<lparr>catchphraseAnalysis = Some (5::nat), isLoadingCatchphrase = False,
         repeatAnalysis_c = Some (7::nat), isLoadingRepeat = False\<rparr>
      = (\<lparr>catchphraseAnalysis = Some 5, isLoadingCatchphrase = False,
          repeatAnalysis_c = Some 7, isLoadingRepeat = False\<rparr>,
         [ConsoleError catchphrase_failed (Thrown (js ''boom''))])
   \<and> loadSessions (Inl (Thrown (js ''boom''))) demo_store
      = (demo_store\<lparr>isInitialized := True\<rparr>,
         [ConsoleError sessions_failed (Thrown (js ''boom''))])"
  using load_failure_keeps_data
    [of "\<lparr>sessionId = js ''s1'', timeFilter = None\<rparr>" "\<lambda>sid tf. Inl (Thrown (js ''boom''))"
      "Thrown (js ''boom'')" "\<lparr>repeatAnalysis = Some (7::nat), isLoading = False\<rparr>"
      "\<lambda>sid tf. Inl (Thrown (js ''boom''))"
      "\<lparr>catchphraseAnalysis = Some (5::nat), isLoadingCatchphrase = False,
         repeatAnalysis_c = Some (7::nat), isLoadingRepeat = False\<rparr>" demo_store]
  by (simp add: js_def)

section \<open>Members with nickname changes\<close>

lemma first_rejection_resolved:
  assumes "\<forall>p \<in> set ps. \<exists>x. p = Inr x"
  shows "first_rejection order ps = None"
proof (induction order)
  case Nil
  then show ?case by simp
next
  case (Cons i order)
  have "\<exists>x. ps ! i = Inr x" if "i < length ps"
    using assms that nth_mem by blast
  then show ?case
    using Cons by (auto split: sum.splits)
qed

lemma first_rejection_member:
  "first_rejection order ps = Some e \<Longrightarrow> Inl e \<in> set ps"
proof (induction order)
  case Nil
  then show ?case by simp
next
  case (Cons i order)
  then show ?case
    by (auto split: if_splits sum.splits) (metis nth_mem)
qed

lemma first_rejection_found:
  "i \<in> set order \<Longrightarrow> i < length ps \<Longrightarrow> ps ! i = Inl e \<Longrightarrow> first_rejection order ps \<noteq> None"
  by (induction order) (auto split: sum.splits)

lemma values_of_resolved:
  "\<forall>x \<in> set xs. f x = Inr (H x) \<Longrightarrow>
     concat (map (\<lambda>p. case p of Inr x \<Rightarrow> [x] | Inl e \<Rightarrow> []) (map f xs)) = map H xs"
  by (induction xs) simp_all

lemma Promise_all_resolved:
  assumes "\<forall>x \<in> set xs. f x = Inr (H x)"
  shows "Promise_all order (map f xs) = Inr (map H xs)"
proof -
  have "\<forall>p \<in> set (map f xs). \<exists>x. p = Inr x"
    using assms by auto
  then have "first_rejection (order @ [0 ..< length (map f xs)]) (map f xs) = None"
    by (rule first_rejection_resolved)
  then show ?thesis
    using values_of_resolved [OF assms] by (simp add: Promise_all_def)
qed

lemma Promise_all_rejected:
  assumes "\<exists>x \<in> set xs. \<exists>e. f x = Inl e"
  shows "\<exists>e. Promise_all order (map f xs) = Inl e \<and> Inl e \<in> set (map f xs)"
proof -
  obtain i e where i: "i < length (map f xs)" "map f xs ! i = Inl e"
    using assms by (metis in_set_conv_nth length_map nth_map)
  then have "i \<in> set (order @ [0 ..< length (map f xs)])"
    by simp
  then have "first_rejection (order @ [0 ..< length (map f xs)]) (map f xs) \<noteq> None"
    using i by (rule first_rejection_found)
  then obtain e' where e': "first_rejection (order @ [0 ..< length (map f xs)]) (map f xs) = Some e'"
    by auto
  then have "Inl e' \<in> set (map f xs)"
    by (rule first_rejection_member)
  then show ?thesis
    using e' by (auto simp: Promise_all_def)
qed

lemma forEach_push_in_range:
  "\<forall>mi \<in> set mis. snd mi < length hs \<Longrightarrow>
     forEach_push hs mis acc
       = Inr (acc @ map (\<lambda>mi. \<lparr>memberId = memberId (fst mi), member_name = member_name (fst mi),
                                history = hs ! snd mi\<rparr>)
                      (filter (\<lambda>mi. length (hs ! snd mi) > 1) mis))"
  by (induction hs mis acc rule: forEach_push.induct) (simp_all add: Let_def)

lemma forEach_push_out_of_range:
  "\<exists>mi \<in> set mis. length hs \<le> snd mi \<Longrightarrow> forEach_push hs mis acc = Inl TypeError"
  by (induction hs mis acc rule: forEach_push.induct) (auto simp: Let_def)

lemma zip_indices:
  "mi \<in> set (zip ys [0 ..< length ys]) \<Longrightarrow> snd mi < length ys \<and> fst mi = ys ! snd mi"
  by (cases mi) (auto simp: set_zip)

lemma forEach_push_by_index:
  assumes "length ys \<le> length xs"
  shows "forEach_push (map H xs) (zip ys [0 ..< length ys]) []
     = Inr (map (\<lambda>mi. \<lparr>memberId = memberId (fst mi), member_name = member_name (fst mi),
                         history = H (xs ! snd mi)\<rparr>)
              (filter (\<lambda>mi. length (H (xs ! snd mi)) > 1) (zip ys [0 ..< length ys])))"
proof -
  let ?mis = "zip ys [0 ..< length ys]"
  have r: "\<forall>mi \<in> set ?mis. snd mi < length (map H xs)"
    using assms zip_indices [of _ ys] by fastforce
  have h: "\<And>mi. mi \<in> set ?mis \<Longrightarrow> map H xs ! snd mi = H (xs ! snd mi)"
    using r by simp
  have "filter (\<lambda>mi. length (map H xs ! snd mi) > 1) ?mis
      = filter (\<lambda>mi. length (H (xs ! snd mi)) > 1) ?mis"
    using h by (intro filter_cong) simp_all
  moreover have "map (\<lambda>mi. \<lparr>memberId = memberId (fst mi), member_name = member_name (fst mi),
                         history = map H xs ! snd mi\<rparr>)
              (filter (\<lambda>mi. length (H (xs ! snd mi)) > 1) ?mis)
      = map (\<lambda>mi. \<lparr>memberId = memberId (fst mi), member_name = member_name (fst mi),
                         history = H (xs ! snd mi)\<rparr>)
              (filter (\<lambda>mi. length (H (xs ! snd mi)) > 1) ?mis)"
    using h by (intro map_cong) simp_all
  ultimately show ?thesis
    using forEach_push_in_range [OF r, of "[]"] by simp
qed

lemma pairs_same_list:
  "map (\<lambda>mi. F (fst mi) (xs ! snd mi)) (filter (\<lambda>mi. Q (xs ! snd mi)) (zip xs [0 ..< length xs]))
     = map (\<lambda>m. F m m) (filter Q xs)"
proof -
  let ?mis = "zip xs [0 ..< length xs]"
  have e: "\<And>mi. mi \<in> set ?mis \<Longrightarrow> xs ! snd mi = fst mi"
    using zip_indices [of _ xs] by simp
  have "filter (\<lambda>mi. Q (xs ! snd mi)) ?mis = filter (\<lambda>mi. Q (fst mi)) ?mis"
    using e by (intro filter_cong) simp_all
  moreover have "map (\<lambda>mi. F (fst mi) (xs ! snd mi)) (filter (\<lambda>mi. Q (fst mi)) ?mis)
      = map (\<lambda>mi. F (fst mi) (fst mi)) (filter (\<lambda>mi. Q (fst mi)) ?mis)"
    using e by (intro map_cong) simp_all
  moreover have "map (\<lambda>mi. F (fst mi) (fst mi)) (filter (\<lambda>mi. Q (fst mi)) ?mis)
      = map (\<lambda>m. F m m) (filter Q xs)"
  proof -
    have m: "map fst ?mis = xs"
      by simp
    have "map (\<lambda>m. F m m) (filter Q (map fst ?mis))
        = map (\<lambda>mi. F (fst mi) (fst mi)) (filter (\<lambda>mi. Q (fst mi)) ?mis)"
      by (simp only: filter_map map_map comp_def)
    then show ?thesis
      by (simp only: m)
  qed
  ultimately show ?thesis
    by (simp only:)
qed




section \<open>The chat store: selection and session list\<close>

lemma findIndex_lower: "- 1 \<le> findIndex P xs"
  by (induction xs) (auto simp: Let_def)

lemma findIndex_missing: "findIndex P xs = - 1 \<longleftrightarrow> (\<forall>x \<in> set xs. \<not> P x)"
proof (induction xs)
  case Nil
  then show ?case by simp
next
  case (Cons x xs)
  have "findIndex P xs + 1 \<noteq> - 1"
    using findIndex_lower [of P xs] by simp
  then show ?case
    using Cons by (auto simp: Let_def)
qed

lemma splice1_Cons_0: "splice1 (x # xs) 0 = xs"
  by (simp add: splice1_def)

lemma splice1_Cons_Suc: "0 \<le> i \<Longrightarrow> splice1 (x # xs) (i + 1) = x # splice1 xs i"
  by (simp add: splice1_def nat_add_distrib)

lemma splice1_first:
  "findIndex P xs \<noteq> - 1 \<Longrightarrow>
     \<exists>ys s zs. xs = ys @ s # zs \<and> P s \<and> (\<forall>y \<in> set ys. \<not> P y)
        \<and> splice1 xs (findIndex P xs) = ys @ zs"
proof (induction xs)
  case Nil
  then show ?case by simp
next
  case (Cons x xs)
  show ?case
  proof (cases "P x")
    case True
    then have "x # xs = [] @ x # xs \<and> P x \<and> (\<forall>y \<in> set []. \<not> P y)
        \<and> splice1 (x # xs) (findIndex P (x # xs)) = [] @ xs"
      by (simp add: splice1_Cons_0)
    then show ?thesis by blast
  next
    case False
    then have ne: "findIndex P xs \<noteq> - 1"
      using Cons.prems by (auto simp: Let_def split: if_splits)
    then obtain ys s zs where *: "xs = ys @ s # zs" "P s" "\<forall>y \<in> set ys. \<not> P y"
        "splice1 xs (findIndex P xs) = ys @ zs"
      using Cons.IH by blast
    have "0 \<le> findIndex P xs"
      using ne findIndex_lower [of P xs] by simp
    then have "splice1 (x # xs) (findIndex P (x # xs)) = (x # ys) @ zs"
      using False ne * by (simp add: Let_def splice1_Cons_Suc)
    moreover have "x # xs = (x # ys) @ s # zs" "\<forall>y \<in> set (x # ys). \<not> P y"
      using * False by simp_all
    ultimately show ?thesis
      using *(2) by blast
  qed
qed

lemma currentSession_cases:
  "currentSession st = None
   \<or> (\<exists>s \<in> set (sessions st). currentSession st = Some s \<and> currentSessionId st = Str (session_id s))"
proof (cases "currentSession st")
  case None
  then show ?thesis by simp
next
  case (Some s)
  then have "find (\<lambda>s. Str (session_id s) = currentSessionId st) (sessions st) = Some s"
    by (simp add: currentSession_def split: if_splits)
  then have "s \<in> set (sessions st) \<and> Str (session_id s) = currentSessionId st"
    by (auto simp: find_Some_iff)
  then show ?thesis
    using Some by auto
qed

lemma deleteSession_success:
  "deleteSession ident (Inr True) st =
     (True,
      st\<lparr>sessions := (if findIndex (\<lambda>s. session_id s = ident) (sessions st) \<noteq> - 1
                        then splice1 (sessions st) (findIndex (\<lambda>s. session_id s = ident) (sessions st))
                        else sessions st),
         currentSessionId := (if currentSessionId st = Str ident then Null
                               else currentSessionId st)\<rparr>,
      [])"
  by (simp add: deleteSession_def Let_def)

text \<open>
  C8 as stated fails for the empty string, which is a falsy id: \<open>loadSessions\<close> does not
  reset it, although it is absent from the fetched list.
\<close>

theorem loadSessions_empty_id_counterexample:
  "currentSessionId (fst (loadSessions (Inr []) (selectSession [] demo_store))) = Str []
   \<and> Str [] \<noteq> Null
   \<and> [] \<notin> session_id ` set (sessions (fst (loadSessions (Inr []) (selectSession [] demo_store))))"
  by (simp add: loadSessions_def selectSession_def demo_store_def)

text \<open>
  C8, amended: in every state of the store, so after every store action, \<open>currentSession\<close> is
  either \<open>null\<close> or a session of the \<open>sessions\<close> list whose id is \<open>currentSessionId\<close>. After
  \<open>loadSessions\<close> has fetched a list, a non-empty \<open>currentSessionId\<close> absent from the list is
  reset to \<open>null\<close> (an empty string is falsy and is left as it is; it selects nothing).
  After a successful \<open>deleteSession(id)\<close> the first session with that id, if there is one,
  is removed from \<open>sessions\<close>, so that no session has that id when ids are distinct, and
  \<open>currentSessionId\<close> is reset to \<open>null\<close> if it was \<open>id\<close>.
\<close>

theorem currentSession_in_sessions:
  "(currentSession st = None
     \<or> (\<exists>s \<in> set (sessions st). currentSession st = Some s
                                  \<and> currentSessionId st = Str (session_id s)))
   \<and> (currentSession (dispatch a st) = None
     \<or> (\<exists>s \<in> set (sessions (dispatch a st)). currentSession (dispatch a st) = Some s
                                  \<and> currentSessionId (dispatch a st) = Str (session_id s)))
   \<and> (truthy (currentSessionId st) \<and> (\<forall>s \<in> set list. Str (session_id s) \<noteq> currentSessionId st) \<longrightarrow>
        fst (loadSessions (Inr list) st)
          = st\<lparr>sessions := list, currentSessionId := Null, isInitialized := True\<rparr>)
   \<and> ((\<exists>s \<in> set list. Str (session_id s) = currentSessionId st) \<longrightarrow>
        fst (loadSessions (Inr list) st) = st\<lparr>sessions := list, isInitialized := True\<rparr>)
   \<and> fst (deleteSession ident (Inr True) st)
   \<and> currentSessionId (fst (snd (deleteSession ident (Inr True) st)))
        = (if currentSessionId st = Str ident then Null else currentSessionId st)
   \<and> ((\<forall>s \<in> set (sessions st). session_id s \<noteq> ident) \<longrightarrow>
        sessions (fst (snd (deleteSession ident (Inr True) st))) = sessions st)
   \<and> ((\<exists>s \<in> set (sessions st). session_id s = ident) \<longrightarrow>
        (\<exists>ys s zs. sessions st = ys @ s # zs \<and> session_id s = ident
            \<and> (\<forall>y \<in> set ys. session_id y \<noteq> ident)
            \<and> sessions (fst (snd (deleteSession ident (Inr True) st))) = ys @ zs))
   \<and> (distinct (map session_id (sessions st)) \<longrightarrow>
        ident \<notin> session_id ` set (sessions (fst (snd (deleteSession ident (Inr True) st)))))"
proof -
  let ?P = "\<lambda>s. session_id s = ident"
  let ?d = "fst (snd (deleteSession ident (Inr True) st))"
  have load1: "truthy (currentSessionId st) \<and> (\<forall>s \<in> set list. Str (session_id s) \<noteq> currentSessionId st) \<longrightarrow>
        fst (loadSessions (Inr list) st)
          = st\<lparr>sessions := list, currentSessionId := Null, isInitialized := True\<rparr>"
    by (auto simp: loadSessions_def Let_def find_None_iff)
  have load2: "(\<exists>s \<in> set list. Str (session_id s) = currentSessionId st) \<longrightarrow>
        fst (loadSessions (Inr list) st) = st\<lparr>sessions := list, isInitialized := True\<rparr>"
    by (auto simp: loadSessions_def Let_def find_None_iff)
  have del0: "fst (deleteSession ident (Inr True) st)"
    "currentSessionId ?d = (if currentSessionId st = Str ident then Null else currentSessionId st)"
    by (simp_all add: deleteSession_success)
  have del1: "(\<forall>s \<in> set (sessions st). session_id s \<noteq> ident) \<longrightarrow> sessions ?d = sessions st"
    using findIndex_missing [of ?P "sessions st"] by (simp add: deleteSession_success)
  have del2: "\<exists>ys s zs. sessions st = ys @ s # zs \<and> session_id s = ident
            \<and> (\<forall>y \<in> set ys. session_id y \<noteq> ident) \<and> sessions ?d = ys @ zs"
    if "\<exists>s \<in> set (sessions st). session_id s = ident"
  proof -
    have ne: "findIndex ?P (sessions st) \<noteq> - 1"
      using that by (simp add: findIndex_missing)
    then have "sessions ?d = splice1 (sessions st) (findIndex ?P (sessions st))"
      by (simp add: deleteSession_success)
    then show ?thesis
      using splice1_first [OF ne] by auto
  qed
  have del3: "ident \<notin> session_id ` set (sessions ?d)"
    if dist: "distinct (map session_id (sessions st))"
  proof (cases "\<exists>s \<in> set (sessions st). session_id s = ident")
    case True
    then obtain ys s zs where *: "sessions st = ys @ s # zs" "session_id s = ident"
        "\<forall>y \<in> set ys. session_id y \<noteq> ident" "sessions ?d = ys @ zs"
      using del2 by blast
    have "ident \<notin> session_id ` set zs"
      using dist * by auto
    then show ?thesis
      using * by auto
  next
    case False
    then show ?thesis
      using del1 by auto
  qed
  show ?thesis
    using currentSession_cases [of st] currentSession_cases [of "dispatch a st"]
      load1 load2 del0 del1 del2 del3
    by (intro conjI impI) blast+
qed

theorem currentSession_in_sessions_witness:
  "currentSession demo_store = Some \<lparr>session_id = js ''s2'', session_name = js ''Work''\<rparr>
   \<and> truthy (currentSessionId demo_store)
   \<and> fst (loadSessions (Inr [\<lparr>session_id = js ''s1'', session_name = js ''Family''\<rparr>]) demo_store)
       = demo_store\<lparr>sessions := [\<lparr>session_id = js ''s1'', session_name = js ''Family''\<rparr>],
                     currentSessionId := Null, isInitialized := True\<rparr>
   \<and> distinct (map session_id (sessions demo_store))
   \<and> sessions (fst (snd (deleteSession (js ''s2'') (Inr True) demo_store)))
       = [\<lparr>session_id = js ''s1'', session_name = js ''Family''\<rparr>]
   \<and> currentSessionId (fst (snd (deleteSession (js ''s2'') (Inr True) demo_store))) = Null
   \<and> currentSession (dispatch (DeleteSession (js ''s2'') (Inr True)) demo_store) = None"
  using currentSession_in_sessions
    [of demo_store "DeleteSession (js ''s2'') (Inr True)"
      "[\<lparr>session_id = js ''s1'', session_name = js ''Family''\<rparr>]" "js ''s2''"]
  by (simp add: demo_store_def currentSession_def deleteSession_def splice1_def js_def)

section \<open>Renaming a session\<close>

lemma length_update_found: "length (update_found P f xs) = length xs"
  by (induction xs) simp_all

lemma map_update_found:
  "(\<And>x. g (f x) = g x) \<Longrightarrow> map g (update_found P f xs) = map g xs"
  by (induction xs) simp_all

lemma nth_update_found:
  "i < length xs \<Longrightarrow>
     update_found P f xs ! i
       = (if P (xs ! i) \<and> (\<forall>j < i. \<not> P (xs ! j)) then f (xs ! i) else xs ! i)"
proof (induction xs arbitrary: i)
  case Nil
  then show ?case by simp
next
  case (Cons x xs)
  show ?case
  proof (cases i)
    case 0
    then show ?thesis by simp
  next
    case (Suc k)
    then have k: "k < length xs"
      using Cons.prems by simp
    have "(\<forall>j < Suc k. \<not> P ((x # xs) ! j)) \<longleftrightarrow> \<not> P x \<and> (\<forall>j < k. \<not> P (xs ! j))"
      by (auto simp: less_Suc_eq_0_disj)
    then show ?thesis
      using Suc Cons.IH [OF k] by auto
  qed
qed

text \<open>
  C9: \<open>renameSession\<close> changes the store only when the bridge returns \<open>true\<close>, and then only
  the \<open>name\<close> of the first session whose id matches: the list keeps its length and the ids
  in their order, every other session is the one it was, the renamed session differs from
  the old one in its name only, and every other ref of the store, \<open>currentSessionId\<close> among
  them, is unchanged. When the bridge returns \<open>false\<close> or throws, the store is unchanged and
  the function returns \<open>false\<close>.
\<close>

theorem renameSession_frame:
  "renameSession ident newName (Inr False) st = (False, st, [])
   \<and> renameSession ident newName (Inl e) st = (False, st, [ConsoleError rename_failed e])
   \<and> fst (renameSession ident newName (Inr True) st)
   \<and> length (sessions (fst (snd (renameSession ident newName (Inr True) st))))
        = length (sessions st)
   \<and> map session_id (sessions (fst (snd (renameSession ident newName (Inr True) st))))
        = map session_id (sessions st)
   \<and> (\<forall>i < length (sessions st).
        sessions (fst (snd (renameSession ident newName (Inr True) st))) ! i
          = (if session_id (sessions st ! i) = ident
                \<and> (\<forall>j < i. session_id (sessions st ! j) \<noteq> ident)
             then (sessions st ! i)\<lparr>session_name := newName\<rparr>
             else sessions st ! i))
   \<and> currentSessionId (fst (snd (renameSession ident newName (Inr True) st)))
        = currentSessionId st
   \<and> (fst (snd (renameSession ident newName (Inr True) st)))\<lparr>sessions := sessions st\<rparr> = st"
  by (simp add: renameSession_def length_update_found map_update_found nth_update_found)

theorem renameSession_frame_witness:
  "fst (snd (renameSession (js ''s2'') (js ''Job'') (Inr True) demo_store))
     = demo_store\<lparr>sessions := [\<lparr>session_id = js ''s1'', session_name = js ''Family''\<rparr>,
                                 \<lparr>session_id = js ''s2'', session_name = js ''Job''\<rparr>]\<rparr>
   \<and> (1::nat) < length (sessions demo_store)
   \<and> sessions (fst (snd (renameSession (js ''s2'') (js ''Job'') (Inr True) demo_store))) ! 1
     = (sessions demo_store ! 1)\<lparr>session_name := js ''Job''\<rparr>
   \<and> sessions (fst (snd (renameSession (js ''s2'') (js ''Job'') (Inr True) demo_store))) ! 0
     = sessions demo_store ! 0"
  using renameSession_frame [of "js ''s2''" "js ''Job''" demo_store]
  by (simp add: demo_store_def renameSession_def js_def)

section \<open>The progress queue: one loop, first in first out\<close>

lemma shift_assign_Cons:
  "queue s = p # ps \<Longrightarrow>
     shift_assign now s
       = s\<lparr>queue := ps, importProgress := Some p, assigned := assigned s @ [(now, Some p)]\<rparr>"
  by (simp add: shift_assign_def assign_importProgress_def)

lemma processLoop_Nil:
  "queue s = [] \<Longrightarrow> processLoop now s = s\<lparr>isProcessing := False\<rparr>"
  by (simp add: processLoop.simps)

lemma processLoop_same_stage:
  "queue s = p # ps \<Longrightarrow> stage p = currentStage s \<Longrightarrow>
     processLoop now s = processLoop now (shift_assign now s)"
  by (subst processLoop.simps) simp

lemma processLoop_park:
  "queue s = p # ps \<Longrightarrow> stage p \<noteq> currentStage s \<Longrightarrow> now - lastStageTime s < MIN_STAGE_TIME \<Longrightarrow>
     processLoop now s = s\<lparr>parked := parked s @ [(p, now + (MIN_STAGE_TIME - (now - lastStageTime s)))]\<rparr>"
  by (subst processLoop.simps) simp

lemma processLoop_new_stage:
  "queue s = p # ps \<Longrightarrow> stage p \<noteq> currentStage s \<Longrightarrow> \<not> now - lastStageTime s < MIN_STAGE_TIME \<Longrightarrow>
     processLoop now s
       = processLoop now (shift_assign now (s\<lparr>currentStage := stage p, lastStageTime := now\<rparr>))"
  by (subst processLoop.simps) simp

text \<open>
  What one run of the loop does: it assigns a prefix of the queue, in order, and either
  empties the queue and clears \<open>isProcessing\<close>, or parks once, in front of the head of the
  queue, with \<open>isProcessing\<close> as it was.
\<close>

lemma processLoop_post:
  "map snd (assigned (processLoop now s)) @ map Some (queue (processLoop now s))
     = map snd (assigned s) @ map Some (queue s)
   \<and> subscribed (processLoop now s) = subscribed s
   \<and> phase (processLoop now s) = phase s
   \<and> clock (processLoop now s) = clock s
   \<and> length (queue (processLoop now s)) \<le> length (queue s)
   \<and> ((parked (processLoop now s) = parked s \<and> \<not> isProcessing (processLoop now s)
         \<and> queue (processLoop now s) = [])
       \<or> (\<exists>d. parked (processLoop now s) = parked s @ [(hd (queue (processLoop now s)), d)]
              \<and> queue (processLoop now s) \<noteq> []
              \<and> isProcessing (processLoop now s) = isProcessing s))"
proof (induction now s rule: processLoop.induct)
  case (1 now s)
  show ?case
  proof (cases "queue s")
    case Nil
    then show ?thesis by (simp add: processLoop_Nil)
  next
    case (Cons p ps)
    show ?thesis
    proof (cases "stage p = currentStage s")
      case True
      have "processLoop now s = processLoop now (shift_assign now s)"
        using Cons True by (rule processLoop_same_stage)
      moreover note "1.IH"(2) [OF Cons] 
      ultimately show ?thesis
        using Cons True by (simp add: shift_assign_Cons)
    next
      case False
      show ?thesis
      proof (cases "now - lastStageTime s < MIN_STAGE_TIME")
        case True
        then show ?thesis
          using Cons False by (simp add: processLoop_park)
      next
        case late: False
        have "processLoop now s
            = processLoop now (shift_assign now (s\<lparr>currentStage := stage p, lastStageTime := now\<rparr>))"
          using Cons False late by (rule processLoop_new_stage)
        moreover note "1.IH"(1) [OF Cons False refl late]
        ultimately show ?thesis
          using Cons by (simp add: shift_assign_Cons)
      qed
    qed
  qed
qed


lemma queue_inv_begin: "queue_inv (begin_import now st)"
  by (simp add: queue_inv_def begin_import_def)

lemma queue_inv_after_loop:
  assumes "parked s = []" "isProcessing s"
  shows "queue_inv (processLoop now s)"
  using processLoop_post [of now s] assms by (auto simp: queue_inv_def)

lemma wait_for_queue_fields:
  "queue (wait_for_queue t s) = queue s" "isProcessing (wait_for_queue t s) = isProcessing s"
  "parked (wait_for_queue t s) = parked s" "assigned (wait_for_queue t s) = assigned s"
  by (simp_all add: wait_for_queue_def last_stage_wait_def force_complete_def Let_def)

lemma force_complete_fields:
  "queue (force_complete t s) = queue s" "isProcessing (force_complete t s) = isProcessing s"
  "parked (force_complete t s) = parked s" "assigned (force_complete t s) = assigned s"
  by (simp_all add: force_complete_def)

lemma step_Progress:
  assumes inv: "queue_inv s" and st: "step (Progress t p) s = Some s'"
  shows "queue_inv s' \<and> map snd (assigned s') @ map Some (queue s')
      = map snd (assigned s) @ map Some (queue s) @ map Some (enqueued [Progress t p])"
proof (cases "stage p = js ''done''")
  case True
  then have "s' = s\<lparr>clock := t\<rparr>"
    using st by (simp add: onImportProgress_def split: if_splits)
  then show ?thesis
    using inv True by (simp add: queue_inv_def)
next
  case False
  let ?s1 = "s\<lparr>clock := t, queue := queue s @ [p]\<rparr>"
  have s': "s' = processQueue t ?s1"
    using st False by (simp add: onImportProgress_def split: if_splits)
  show ?thesis
  proof (cases "isProcessing s")
    case True
    then have "s' = ?s1"
      using s' by (simp add: processQueue_def)
    then show ?thesis
      using inv True False by (auto simp: queue_inv_def)
  next
    case idle: False
    let ?s2 = "?s1\<lparr>isProcessing := True\<rparr>"
    have e: "parked s = []" "queue s = []"
      using inv idle by (auto simp: queue_inv_def)
    have s'': "s' = processLoop t ?s2"
      using s' idle by (simp add: processQueue_def)
    have "queue_inv (processLoop t ?s2)"
      using e by (intro queue_inv_after_loop) simp_all
    moreover have "map snd (assigned (processLoop t ?s2)) @ map Some (queue (processLoop t ?s2))
        = map snd (assigned ?s2) @ map Some (queue ?s2)"
      using processLoop_post [of t ?s2] by blast
    ultimately show ?thesis
      using s'' e False by simp
  qed
qed

lemma step_QueueTimer:
  assumes inv: "queue_inv s" and st: "step (QueueTimer t k) s = Some s'"
  shows "queue_inv s' \<and> map snd (assigned s') @ map Some (queue s')
      = map snd (assigned s) @ map Some (queue s) @ map Some (enqueued [QueueTimer t k])
    \<and> length (queue s') < length (queue s)"
proof -
  have k: "k < length (parked s)" and s': "s' = resume t k (s\<lparr>clock := t\<rparr>)"
    using st by (simp_all split: if_splits)
  then have one: "length (parked s) = 1" and k0: "k = 0"
    using inv by (auto simp: queue_inv_def)
  then obtain n d where pk: "parked s = [(n, d)]"
    by (cases "parked s") (auto simp: length_Suc_conv)
  obtain q qs where q: "queue s = q # qs"
    using inv pk by (cases "queue s") (auto simp: queue_inv_def)
  have busy: "isProcessing s"
    using inv pk by (simp add: queue_inv_def)
  let ?s3 = "s\<lparr>clock := t, parked := [], currentStage := stage n, lastStageTime := t,
      queue := qs, importProgress := Some q, assigned := assigned s @ [(t, Some q)]\<rparr>"
  have s'': "s' = processLoop t ?s3"
    using s' k0 pk q by (simp add: resume_def Let_def shift_assign_def assign_importProgress_def)
  have "queue_inv (processLoop t ?s3)"
    using busy by (intro queue_inv_after_loop) simp_all
  moreover have "map snd (assigned (processLoop t ?s3)) @ map Some (queue (processLoop t ?s3))
        = map snd (assigned ?s3) @ map Some (queue ?s3)"
    "length (queue (processLoop t ?s3)) \<le> length (queue ?s3)"
    using processLoop_post [of t ?s3] by blast+
  ultimately show ?thesis
    using s'' q by simp
qed

lemma step_inv:
  assumes inv: "queue_inv s" and st: "step e s = Some s'"
  shows "queue_inv s' \<and> map snd (assigned s') @ map Some (queue s')
      = map snd (assigned s) @ map Some (queue s) @ map Some (enqueued [e])"
proof (cases e)
  case (Progress t p)
  then show ?thesis using step_Progress [OF inv] st by blast
next
  case (QueueTimer t k)
  then show ?thesis using step_QueueTimer [OF inv] st by blast
next
  case (ImportResolved t)
  then have "s' = wait_for_queue t (s\<lparr>clock := t, subscribed := False\<rparr>)"
    using st by (simp split: if_splits)
  then show ?thesis
    using inv ImportResolved by (simp add: queue_inv_def wait_for_queue_fields)
next
  case (ImportRejected t)
  then have "s' = s\<lparr>clock := t, phase := Failed\<rparr>"
    using st by (simp split: if_splits)
  then show ?thesis
    using inv ImportRejected by (simp add: queue_inv_def)
next
  case (PollTimer t)
  then have "s' = wait_for_queue t (s\<lparr>clock := t\<rparr>)"
    using st by (simp split: if_splits phase.splits)
  then show ?thesis
    using inv PollTimer by (simp add: queue_inv_def wait_for_queue_fields)
next
  case (StageTimer t)
  then have "s' = force_complete t (s\<lparr>clock := t\<rparr>)"
    using st by (simp split: if_splits phase.splits)
  then show ?thesis
    using inv StageTimer by (simp add: queue_inv_def force_complete_fields)
qed

lemma enqueued_append: "enqueued (es @ fs) = enqueued es @ enqueued fs"
  by (induction es rule: enqueued.induct) simp_all

lemma run_append:
  "run (es @ fs) s = (case run es s of None \<Rightarrow> None | Some s' \<Rightarrow> run fs s')"
  by (induction es arbitrary: s) (simp_all split: option.splits)

lemma run_inv:
  "queue_inv s \<Longrightarrow> run es s = Some s' \<Longrightarrow>
     queue_inv s' \<and> map snd (assigned s') @ map Some (queue s')
       = map snd (assigned s) @ map Some (queue s) @ map Some (enqueued es)"
proof (induction es arbitrary: s)
  case Nil
  then show ?case by simp
next
  case (Cons e es)
  then obtain s1 where s1: "step e s = Some s1" "run es s1 = Some s'"
    by (auto split: option.splits)
  have a: "queue_inv s1" "map snd (assigned s1) @ map Some (queue s1)
      = map snd (assigned s) @ map Some (queue s) @ map Some (enqueued [e])"
    using step_inv [OF Cons.prems(1) s1(1)] by simp_all
  have "enqueued (e # es) = enqueued [e] @ enqueued es"
    using enqueued_append [of "[e]" es] by simp
  then show ?case
    using Cons.IH [OF a(1) s1(2)] a(2) by simp
qed

text \<open>The timers of the queue drain it: each firing applies at least one more value.\<close>

lemma drain:
  "queue_inv s \<Longrightarrow>
     \<exists>ts s'. run (map (\<lambda>t. QueueTimer t 0) ts) s = Some s' \<and> queue s' = [] \<and> \<not> isProcessing s'"
proof (induction "length (queue s)" arbitrary: s rule: less_induct)
  case less
  show ?case
  proof (cases "isProcessing s")
    case False
    then have "run (map (\<lambda>t. QueueTimer t 0) []) s = Some s \<and> queue s = [] \<and> \<not> isProcessing s"
      using less.prems by (simp add: queue_inv_def)
    then show ?thesis by blast
  next
    case True
    then obtain n d where pk: "parked s = [(n, d)]"
      using less.prems by (cases "parked s") (auto simp: queue_inv_def)
    let ?t = "max d (clock s)"
    obtain s1 where s1: "step (QueueTimer ?t 0) s = Some s1"
      using pk by simp
    have inv1: "queue_inv s1" and shorter: "length (queue s1) < length (queue s)"
      using step_QueueTimer [OF less.prems s1] by simp_all
    obtain ts s' where "run (map (\<lambda>t. QueueTimer t 0) ts) s1 = Some s'" "queue s' = []"
        "\<not> isProcessing s'"
      using less.hyps [OF shorter inv1] by blast
    then have "run (map (\<lambda>t. QueueTimer t 0) (?t # ts)) s = Some s' \<and> queue s' = []
        \<and> \<not> isProcessing s'"
      using s1 by simp
    then show ?thesis by blast
  qed
qed

lemma enqueued_timers: "enqueued (map (\<lambda>t. QueueTimer t 0) ts) = []"
  by (induction ts) simp_all

text \<open>
  C1 does not hold of the code. \<open>currentStage\<close> starts as \<open>reading\<close> while the stage on
  display is \<open>detecting\<close>, and \<open>lastStageTime\<close> is the start of the import. A first
  \<open>reading\<close> event is therefore displayed at once, and the wait before the next stage is
  counted from the start of the import, not from the moment \<open>reading\<close> came on display:
  with \<open>reading\<close> delivered after 900 ms and \<open>parsing\<close> after 1000 ms, \<open>detecting\<close> is
  replaced after 900 ms and \<open>reading\<close> after 100 ms. Likewise, when the import resolves at
  950 ms, the progress is forced to 100 at 1000 ms, 100 ms after \<open>reading\<close> came on display.
\<close>

theorem min_stage_time_failing_runs:
  "map_option (displayed 0)
     (run [Progress 900 \<lparr>stage = js ''reading'', progress = 10, message = []\<rparr>,
           Progress 1000 \<lparr>stage = js ''parsing'', progress = 40, message = []\<rparr>]
        (begin_import 0 demo_store))
     = Some [(0, Some (js ''detecting'')), (900, Some (js ''reading'')),
             (1000, Some (js ''parsing''))]
   \<and> map_option (\<lambda>s. (displayed 0 s, phase s, map_option progress (importProgress s)))
     (run [Progress 900 \<lparr>stage = js ''reading'', progress = 10, message = []\<rparr>,
           ImportResolved 950, StageTimer 1000]
        (begin_import 0 demo_store))
     = Some ([(0, Some (js ''detecting'')), (900, Some (js ''reading''))], Forced 1000, Some 100)"
  by (simp add: begin_import_def demo_store_def onImportProgress_def processQueue_def
      processLoop.simps shift_assign_def assign_importProgress_def wait_for_queue_def
      last_stage_wait_def
      force_complete_def MIN_STAGE_TIME_def displayed_def js_def)

text \<open>
  What the queue does guarantee is relative to its own bookkeeping: the stage it tracks in
  \<open>currentStage\<close> changes only when \<open>MIN_STAGE_TIME\<close> has passed since \<open>lastStageTime\<close>, and
  the progress is forced to 100 only then. The two runs above differ from the claim
  because \<open>currentStage\<close> and \<open>lastStageTime\<close> do not start as the stage on display and
  the time it came on display.
\<close>

lemma processLoop_stage:
  "((currentStage (processLoop now s) = currentStage s
       \<and> lastStageTime (processLoop now s) = lastStageTime s)
     \<or> (lastStageTime (processLoop now s) = now \<and> lastStageTime s + MIN_STAGE_TIME \<le> now))
   \<and> (parked (processLoop now s) \<noteq> parked s \<longrightarrow>
        snd (last (parked (processLoop now s)))
          = lastStageTime (processLoop now s) + MIN_STAGE_TIME)"
proof (induction now s rule: processLoop.induct)
  case (1 now s)
  show ?case
  proof (cases "queue s")
    case Nil
    then show ?thesis by (simp add: processLoop_Nil)
  next
    case (Cons p ps)
    show ?thesis
    proof (cases "stage p = currentStage s")
      case True
      have "processLoop now s = processLoop now (shift_assign now s)"
        using Cons True by (rule processLoop_same_stage)
      moreover note "1.IH"(2) [OF Cons]
      ultimately show ?thesis
        using Cons True by (simp add: shift_assign_Cons)
    next
      case False
      show ?thesis
      proof (cases "now - lastStageTime s < MIN_STAGE_TIME")
        case True
        then show ?thesis
          using Cons False by (simp add: processLoop_park)
      next
        case late: False
        have "processLoop now s
            = processLoop now (shift_assign now (s\<lparr>currentStage := stage p, lastStageTime := now\<rparr>))"
          using Cons False late by (rule processLoop_new_stage)
        moreover note "1.IH"(1) [OF Cons False refl late]
        ultimately show ?thesis
          using Cons late by (auto simp: shift_assign_Cons MIN_STAGE_TIME_def)
      qed
    qed
  qed
qed

lemma wait_for_queue_stage:
  "currentStage (wait_for_queue t s) = currentStage s"
  "lastStageTime (wait_for_queue t s) = lastStageTime s"
  "subscribed (wait_for_queue t s) = subscribed s"
  "phase (wait_for_queue t s) = FinalWait d \<and> phase s \<noteq> FinalWait d \<Longrightarrow>
     d = lastStageTime s + MIN_STAGE_TIME \<and> \<not> isProcessing s"
  "phase (wait_for_queue t s) = Forced d \<and> phase s \<noteq> Forced d \<Longrightarrow>
     lastStageTime s + MIN_STAGE_TIME \<le> d"
  by (auto simp: wait_for_queue_def last_stage_wait_def force_complete_def Let_def
      split: if_splits)

lemma timed_inv_begin: "timed_inv (begin_import now st)"
  by (simp add: timed_inv_def queue_inv_begin) (simp add: begin_import_def)


lemma timed_inv_after_loop:
  assumes "parked s = []" "isProcessing s" "\<And>d. phase s \<noteq> FinalWait d"
    "\<forall>d. phase s = Polling d \<longrightarrow> \<not> subscribed s"
  shows "timed_inv (processLoop now s)"
proof -
  let ?s' = "processLoop now s"
  have q: "queue_inv ?s'"
    using assms(1,2) by (rule queue_inv_after_loop)
  have ph: "phase ?s' = phase s" "subscribed ?s' = subscribed s"
    using processLoop_post [of now s] by simp_all
  have "length (parked ?s') \<le> 1"
    using q by (simp add: queue_inv_def)
  then consider "parked ?s' = []" | pk where "parked ?s' = [pk]"
    by (cases "parked ?s'") auto
  then have "list_all (\<lambda>pk. snd pk = lastStageTime ?s' + MIN_STAGE_TIME) (parked ?s')"
  proof cases
    case 1
    then show ?thesis by simp
  next
    case 2
    then have "snd (last (parked ?s')) = lastStageTime ?s' + MIN_STAGE_TIME"
      using processLoop_stage [of now s] assms(1) by simp
    then show ?thesis
      using 2 by simp
  qed
  then show ?thesis
    using q ph assms(3,4) by (auto simp: timed_inv_def split: phase.splits)
qed

lemma step_timed:
  assumes inv: "timed_inv s" and st: "step e s = Some s'"
  shows "timed_inv s'
    \<and> (currentStage s' \<noteq> currentStage s \<longrightarrow> lastStageTime s + MIN_STAGE_TIME \<le> lastStageTime s')
    \<and> (\<forall>t. phase s' = Forced t \<and> phase s \<noteq> Forced t \<longrightarrow> lastStageTime s' + MIN_STAGE_TIME \<le> t)"
proof (cases e)
  case (Progress t p)
  have sub: "subscribed s"
    using st Progress by (simp split: if_splits)
  then have nf: "\<And>d. phase s \<noteq> FinalWait d" "\<And>d. phase s \<noteq> Polling d"
    using inv by (auto simp: timed_inv_def split: phase.splits)
  show ?thesis
  proof (cases "stage p = js ''done'' \<or> isProcessing s")
    case True
    then have "s' = s\<lparr>clock := t\<rparr> \<or> s' = s\<lparr>clock := t, queue := queue s @ [p]\<rparr>"
      using st Progress by (auto simp: onImportProgress_def processQueue_def split: if_splits)
    moreover have "queue_inv s'"
      using step_Progress [OF _ st [unfolded Progress]] inv by (simp add: timed_inv_def)
    ultimately show ?thesis
      using inv by (auto simp: timed_inv_def split: phase.splits)
  next
    case False
    let ?s2 = "s\<lparr>clock := t, queue := queue s @ [p], isProcessing := True\<rparr>"
    have s': "s' = processLoop t ?s2"
      using st Progress False
      by (auto simp: onImportProgress_def processQueue_def split: if_splits)
    have e: "parked s = []"
      using inv False by (auto simp: timed_inv_def queue_inv_def)
    have "timed_inv (processLoop t ?s2)"
      using e nf by (intro timed_inv_after_loop) simp_all
    moreover have "phase (processLoop t ?s2) = phase s"
      using processLoop_post [of t ?s2] by simp
    ultimately show ?thesis
      using s' processLoop_stage [of t ?s2] by auto
  qed
next
  case (QueueTimer t k)
  have k: "k < length (parked s)" "snd (parked s ! k) \<le> t"
    and s': "s' = resume t k (s\<lparr>clock := t\<rparr>)"
    using st QueueTimer by (simp_all split: if_splits)
  then have k0: "k = 0" and one: "length (parked s) = 1"
    using inv by (auto simp: timed_inv_def queue_inv_def)
  then obtain n d where pk: "parked s = [(n, d)]"
    by (cases "parked s") (auto simp: length_Suc_conv)
  have d: "d = lastStageTime s + MIN_STAGE_TIME" "d \<le> t"
    using inv pk k k0 by (simp_all add: timed_inv_def)
  obtain q qs where q: "queue s = q # qs"
    using inv pk by (cases "queue s") (auto simp: timed_inv_def queue_inv_def)
  have busy: "isProcessing s"
    using inv pk by (simp add: timed_inv_def queue_inv_def)
  then have nf: "\<And>d. phase s \<noteq> FinalWait d" "\<forall>d. phase s = Polling d \<longrightarrow> \<not> subscribed s"
    using inv by (auto simp: timed_inv_def split: phase.splits)
  let ?s3 = "s\<lparr>clock := t, parked := [], currentStage := stage n, lastStageTime := t,
      queue := qs, importProgress := Some q, assigned := assigned s @ [(t, Some q)]\<rparr>"
  have s'': "s' = processLoop t ?s3"
    using s' k0 pk q by (simp add: resume_def Let_def shift_assign_def assign_importProgress_def)
  have "timed_inv (processLoop t ?s3)"
    using busy nf by (intro timed_inv_after_loop) simp_all
  moreover have "phase (processLoop t ?s3) = phase s"
    using processLoop_post [of t ?s3] by simp
  moreover have "lastStageTime (processLoop t ?s3) = t"
    using processLoop_stage [of t ?s3] by auto
  ultimately show ?thesis
    using s'' d by simp
next
  case (ImportResolved t)
  let ?s1 = "s\<lparr>clock := t, subscribed := False\<rparr>"
  have s': "s' = wait_for_queue t ?s1" and ph: "phase s = Importing"
    using st ImportResolved by (simp_all split: if_splits)
  have "queue_inv s'"
    using step_inv [OF _ st] inv by (simp add: timed_inv_def)
  moreover have "list_all (\<lambda>pk. snd pk = lastStageTime s' + MIN_STAGE_TIME) (parked s')"
    using inv s' by (simp add: timed_inv_def wait_for_queue_stage wait_for_queue_fields)
  ultimately show ?thesis
    using s' ph wait_for_queue_stage(4) [of t ?s1] wait_for_queue_stage(5) [of t ?s1]
    by (auto simp: timed_inv_def wait_for_queue_stage wait_for_queue_fields split: phase.splits)
next
  case (ImportRejected t)
  then have "s' = s\<lparr>clock := t, phase := Failed\<rparr>"
    using st by (simp split: if_splits)
  then show ?thesis
    using inv by (simp add: timed_inv_def queue_inv_def)
next
  case (PollTimer t)
  let ?s1 = "s\<lparr>clock := t\<rparr>"
  obtain d0 where s': "s' = wait_for_queue t ?s1" and ph: "phase s = Polling d0"
    using st PollTimer by (auto split: if_splits phase.splits)
  have "queue_inv s'"
    using step_inv [OF _ st] inv by (simp add: timed_inv_def)
  moreover have "list_all (\<lambda>pk. snd pk = lastStageTime s' + MIN_STAGE_TIME) (parked s')"
    using inv s' by (simp add: timed_inv_def wait_for_queue_stage wait_for_queue_fields)
  moreover have "\<not> subscribed s"
    using inv ph by (simp add: timed_inv_def)
  ultimately show ?thesis
    using s' ph wait_for_queue_stage(4) [of t ?s1] wait_for_queue_stage(5) [of t ?s1]
    by (auto simp: timed_inv_def wait_for_queue_stage wait_for_queue_fields split: phase.splits)
next
  case (StageTimer t)
  obtain d where s': "s' = force_complete t (s\<lparr>clock := t\<rparr>)" and ph: "phase s = FinalWait d"
    and dt: "d \<le> t"
    using st StageTimer by (auto split: if_splits phase.splits)
  have "d = lastStageTime s + MIN_STAGE_TIME"
    using inv ph by (simp add: timed_inv_def)
  then show ?thesis
    using inv s' dt by (simp add: timed_inv_def queue_inv_def force_complete_def)
qed

lemma run_timed: "timed_inv s \<Longrightarrow> run es s = Some s' \<Longrightarrow> timed_inv s'"
proof (induction es arbitrary: s)
  case Nil
  then show ?case by simp
next
  case (Cons e es)
  then obtain s1 where s1: "step e s = Some s1" "run es s1 = Some s'"
    by (auto split: option.splits)
  show ?case
    using Cons.IH [OF _ s1(2)] step_timed [OF Cons.prems(1) s1(1)] by simp
qed

lemma tracked_stage_min_time:
  assumes "run evs (begin_import start st) = Some s" and "step e s = Some s'"
  shows "(currentStage s' \<noteq> currentStage s \<longrightarrow>
            lastStageTime s + MIN_STAGE_TIME \<le> lastStageTime s')
    \<and> (\<forall>t. phase s' = Forced t \<and> phase s \<noteq> Forced t \<longrightarrow>
            lastStageTime s' + MIN_STAGE_TIME \<le> t)"
  using step_timed [OF run_timed [OF timed_inv_begin assms(1)] assms(2)] by simp

text \<open>The store's \<open>importProgress\<close> follows the assignments.\<close>

lemma on_display_not_forced:
  assumes "\<And>t. ph \<noteq> Forced t"
  shows "on_display ph vs = on_display Importing vs"
  using assms by (cases ph) (auto simp: on_display_def)

lemma on_display_snoc:
  "on_display Importing (vs @ [v]) = v"
  by (simp add: on_display_def)

lemma processLoop_display:
  "importProgress s = on_display Importing (map snd (assigned s)) \<Longrightarrow>
     importProgress (processLoop now s)
       = on_display Importing (map snd (assigned (processLoop now s)))"
proof (induction now s rule: processLoop.induct)
  case (1 now s)
  show ?case
  proof (cases "queue s")
    case Nil
    then show ?thesis
      using "1.prems" by (simp add: processLoop_Nil)
  next
    case (Cons p ps)
    show ?thesis
    proof (cases "stage p = currentStage s")
      case True
      have "processLoop now s = processLoop now (shift_assign now s)"
        using Cons True by (rule processLoop_same_stage)
      moreover have "importProgress (shift_assign now s)
          = on_display Importing (map snd (assigned (shift_assign now s)))"
        using Cons by (simp add: shift_assign_Cons on_display_snoc)
      ultimately show ?thesis
        using "1.IH"(2) [OF Cons] True by simp
    next
      case False
      show ?thesis
      proof (cases "now - lastStageTime s < MIN_STAGE_TIME")
        case True
        then show ?thesis
          using Cons False "1.prems" by (simp add: processLoop_park)
      next
        case late: False
        let ?s1 = "s\<lparr>currentStage := stage p, lastStageTime := now\<rparr>"
        have "processLoop now s = processLoop now (shift_assign now ?s1)"
          using Cons False late by (rule processLoop_new_stage)
        moreover have "importProgress (shift_assign now ?s1)
            = on_display Importing (map snd (assigned (shift_assign now ?s1)))"
          using Cons by (simp add: shift_assign_Cons on_display_snoc)
        ultimately show ?thesis
          using "1.IH"(1) [OF Cons False refl late] by simp
      qed
    qed
  qed
qed

lemma display_inv_begin: "display_inv (begin_import now st)"
  by (simp add: display_inv_def begin_import_def on_display_def)

lemma wait_for_queue_display:
  assumes "\<And>t0. phase s \<noteq> Forced t0"
    and "importProgress s = on_display Importing (map snd (assigned s))"
    and "\<not> subscribed s"
  shows "display_inv (wait_for_queue t s)"
  using assms
  by (auto simp: display_inv_def wait_for_queue_def last_stage_wait_def force_complete_def
      on_display_def Let_def split: phase.splits)

lemma step_display:
  assumes tinv: "timed_inv s" and dinv: "display_inv s" and st: "step e s = Some s'"
  shows "display_inv s'"
proof -
  have qinv: "queue_inv s"
    using tinv by (simp add: timed_inv_def)
  have shown: "importProgress s = on_display (phase s) (map snd (assigned s))"
    using dinv by (simp add: display_inv_def)
  show ?thesis
  proof (cases e)
    case (Progress t p)
    have sub: "subscribed s"
      using st Progress by (simp split: if_splits)
    then have nf: "\<And>t0. phase s \<noteq> Forced t0"
      using dinv by (auto simp: display_inv_def)
    then have sh: "importProgress s = on_display Importing (map snd (assigned s))"
      using shown on_display_not_forced [of "phase s"] by simp
    show ?thesis
    proof (cases "stage p = js ''done'' \<or> isProcessing s")
      case True
      then have "s' = s\<lparr>clock := t\<rparr> \<or> s' = s\<lparr>clock := t, queue := queue s @ [p]\<rparr>"
        using st Progress by (auto simp: onImportProgress_def processQueue_def split: if_splits)
      then show ?thesis
        using dinv by (auto simp: display_inv_def split: phase.splits)
    next
      case False
      let ?s2 = "s\<lparr>clock := t, queue := queue s @ [p], isProcessing := True\<rparr>"
      have s': "s' = processLoop t ?s2"
        using st Progress False
        by (auto simp: onImportProgress_def processQueue_def split: if_splits)
      have "importProgress (processLoop t ?s2)
          = on_display Importing (map snd (assigned (processLoop t ?s2)))"
        using sh by (intro processLoop_display) simp
      moreover have "phase (processLoop t ?s2) = phase s"
        using processLoop_post [of t ?s2] by simp
      ultimately show ?thesis
        using s' nf on_display_not_forced [of "phase s"]
        by (auto simp: display_inv_def split: phase.splits)
    qed
  next
    case (QueueTimer t k)
    have k: "k < length (parked s)" and s': "s' = resume t k (s\<lparr>clock := t\<rparr>)"
      using st QueueTimer by (simp_all split: if_splits)
    then have k0: "k = 0" and one: "length (parked s) = 1"
      using qinv by (auto simp: queue_inv_def)
    then obtain n d where pk: "parked s = [(n, d)]"
      by (cases "parked s") (auto simp: length_Suc_conv)
    obtain q qs where q: "queue s = q # qs"
      using qinv pk by (cases "queue s") (auto simp: queue_inv_def)
    have busy: "isProcessing s"
      using qinv pk by (simp add: queue_inv_def)
    then have nf: "\<And>t0. phase s \<noteq> Forced t0"
      using dinv by (auto simp: display_inv_def)
    let ?s3 = "s\<lparr>clock := t, parked := [], currentStage := stage n, lastStageTime := t,
      queue := qs, importProgress := Some q, assigned := assigned s @ [(t, Some q)]\<rparr>"
    have s'': "s' = processLoop t ?s3"
      using s' k0 pk q
      by (simp add: resume_def Let_def shift_assign_def assign_importProgress_def)
    have "importProgress (processLoop t ?s3)
        = on_display Importing (map snd (assigned (processLoop t ?s3)))"
      by (intro processLoop_display) (simp add: on_display_snoc)
    moreover have "phase (processLoop t ?s3) = phase s"
      using processLoop_post [of t ?s3] by simp
    ultimately show ?thesis
      using s'' nf on_display_not_forced [of "phase s"]
      by (auto simp: display_inv_def split: phase.splits)
  next
    case (ImportResolved t)
    let ?s1 = "s\<lparr>clock := t, subscribed := False\<rparr>"
    have s': "s' = wait_for_queue t ?s1" and ph: "phase s = Importing"
      using st ImportResolved by (simp_all split: if_splits)
    show ?thesis
      unfolding s' using ph shown by (intro wait_for_queue_display) simp_all
  next
    case (ImportRejected t)
    then have "s' = s\<lparr>clock := t, phase := Failed\<rparr>" "phase s = Importing"
      using st by (simp_all split: if_splits)
    then show ?thesis
      using shown by (simp add: display_inv_def on_display_def)
  next
    case (PollTimer t)
    let ?s1 = "s\<lparr>clock := t\<rparr>"
    obtain d0 where s': "s' = wait_for_queue t ?s1" and ph: "phase s = Polling d0"
      using st PollTimer by (auto split: if_splits phase.splits)
    have ns: "\<not> subscribed s"
      using tinv ph by (simp add: timed_inv_def)
    have "importProgress s = on_display Importing (map snd (assigned s))"
      using shown ph by (simp add: on_display_def)
    then show ?thesis
      unfolding s' using ph ns by (intro wait_for_queue_display) simp_all
  next
    case (StageTimer t)
    obtain d where s': "s' = force_complete t (s\<lparr>clock := t\<rparr>)" and ph: "phase s = FinalWait d"
      using st StageTimer by (auto split: if_splits phase.splits)
    have "\<not> isProcessing s" "\<not> subscribed s"
      using tinv ph by (simp_all add: timed_inv_def)
    then show ?thesis
      using s' ph shown by (simp add: display_inv_def force_complete_def on_display_def)
  qed
qed

lemma run_display:
  "timed_inv s \<Longrightarrow> display_inv s \<Longrightarrow> run es s = Some s' \<Longrightarrow> display_inv s'"
proof (induction es arbitrary: s)
  case Nil
  then show ?case by simp
next
  case (Cons e es)
  then obtain s1 where s1: "step e s = Some s1" "run es s1 = Some s'"
    by (auto split: option.splits)
  have "timed_inv s1"
    using step_timed [OF Cons.prems(1) s1(1)] by simp
  moreover have "display_inv s1"
    using step_display [OF Cons.prems(1,2) s1(1)] .
  ultimately show ?case
    using Cons.IH s1(2) by blast
qed

lemma phase_queue_timers:
  "run (map (\<lambda>t. QueueTimer t 0) ts) s = Some s' \<Longrightarrow> phase s' = phase s"
proof (induction ts arbitrary: s)
  case Nil
  then show ?case by simp
next
  case (Cons t ts)
  then obtain s1 where s1: "step (QueueTimer t 0) s = Some s1"
      "run (map (\<lambda>t. QueueTimer t 0) ts) s1 = Some s'"
    by (auto split: option.splits)
  have "s1 = resume t 0 (s\<lparr>clock := t\<rparr>)"
    using s1(1) by (simp split: if_splits)
  then have "phase s1 = phase s"
    using processLoop_post [of t "shift_assign t (s\<lparr>clock := t,
        parked := take 0 (parked s) @ drop (Suc 0) (parked s),
        currentStage := stage (fst (parked s ! 0)), lastStageTime := t\<rparr>)"]
    by (simp add: resume_def Let_def shift_assign_def assign_importProgress_def
        split: list.splits)
  then show ?case
    using Cons.IH [OF s1(2)] by simp
qed



section \<open>The auto-updater: registration and forwarding of the download progress\<close>

lemma forwarded_append:
  "forwarded win (xs @ ys) = forwarded win xs @ forwarded win ys"
  by (induction win xs rule: forwarded.induct) simp_all

lemma listeners_handle: "listeners (handle h e u) = listeners u"
  by (cases "(h, e, u)" rule: handle.cases) simp_all

lemma emit_registered:
  assumes "listeners u =
      [(js ''update-available'', OnUpdateAvailable),
       (js ''download-progress'', OnDownloadProgress win),
       (js ''update-downloaded'', OnUpdateDownloaded win),
       (js ''update-not-available'', OnUpdateNotAvailable win),
       (js ''error'', OnError)]"
  shows "emit e u =
      (case e of
         UpdateAvailable info \<Rightarrow> handle OnUpdateAvailable e u
       | DownloadProgress p \<Rightarrow> handle (OnDownloadProgress win) e u
       | UpdateDownloaded \<Rightarrow> handle (OnUpdateDownloaded win) e u
       | UpdateNotAvailable info \<Rightarrow> handle (OnUpdateNotAvailable win) e u
       | UpdaterError err ev \<Rightarrow> handle OnError e u
       | CheckingForUpdate \<Rightarrow> u)"
  using assms by (cases e) (simp_all add: emit_def js_def)

lemma emit_forwards:
  assumes "listeners u =
      [(js ''update-available'', OnUpdateAvailable),
       (js ''download-progress'', OnDownloadProgress win),
       (js ''update-downloaded'', OnUpdateDownloaded win),
       (js ''update-not-available'', OnUpdateNotAvailable win),
       (js ''error'', OnError)]"
  shows "listeners (emit e u) = listeners u
    \<and> forwarded win (effects (emit e u)) = forwarded win (effects u) @ received [Emit e]"
proof -
  have "forwarded win (effects (emit e u)) = forwarded win (effects u) @ received [Emit e]"
    by (cases e) (simp_all add: emit_registered [OF assms] forwarded_append js_def)
  moreover have "listeners (emit e u) = listeners u"
    by (cases e) (simp_all add: emit_registered [OF assms] listeners_handle)
  ultimately show ?thesis by simp
qed

lemma continue_forwards:
  assumes "continue c out u = Some u'"
  shows "listeners u' = listeners u \<and> forwarded win (effects u') = forwarded win (effects u)"
  using assms
  by (cases "(c, out, u)" rule: continue.cases)
     (auto simp: forwarded_append Let_def js_def split: if_splits)

lemma main_step_forwards:
  assumes "listeners u =
      [(js ''update-available'', OnUpdateAvailable),
       (js ''download-progress'', OnDownloadProgress win),
       (js ''update-downloaded'', OnUpdateDownloaded win),
       (js ''update-not-available'', OnUpdateNotAvailable win),
       (js ''error'', OnError)]"
    and "main_step ev u = Some u'"
  shows "listeners u' = listeners u
    \<and> forwarded win (effects u') = forwarded win (effects u) @ received [ev]"
proof (cases ev)
  case (Emit e)
  then show ?thesis
    using assms(2) emit_forwards [OF assms(1), of e] by auto
next
  case (Settle k out)
  then have "continue (pending u ! k) out
      (u\<lparr>pending := take k (pending u) @ drop (Suc k) (pending u)\<rparr>) = Some u'"
    using assms(2) by (simp split: if_splits)
  then show ?thesis
    using Settle continue_forwards [of "pending u ! k" out _ u' win] by simp
qed

lemma received_Cons: "received (ev # evs) = received [ev] @ received evs"
  by (cases "(ev # evs)" rule: received.cases) simp_all

lemma main_run_forwards:
  assumes "listeners u =
      [(js ''update-available'', OnUpdateAvailable),
       (js ''download-progress'', OnDownloadProgress win),
       (js ''update-downloaded'', OnUpdateDownloaded win),
       (js ''update-not-available'', OnUpdateNotAvailable win),
       (js ''error'', OnError)]"
    and "main_run evs u = Some u'"
  shows "forwarded win (effects u') = forwarded win (effects u) @ received evs"
  using assms
proof (induction evs arbitrary: u)
  case Nil
  then show ?case by simp
next
  case (Cons ev evs)
  then obtain u1 where u1: "main_step ev u = Some u1" "main_run evs u1 = Some u'"
    by (auto split: option.splits)
  have s: "listeners u1 = listeners u"
    "forwarded win (effects u1) = forwarded win (effects u) @ received [ev]"
    using main_step_forwards [OF Cons.prems(1) u1(1)] by simp_all
  have "forwarded win (effects u') = forwarded win (effects u1) @ received evs"
    using Cons.IH [OF _ u1(2)] s(1) Cons.prems(1) by simp
  then show ?case
    using s(2) received_Cons [of ev evs] by simp
qed

lemma handle_effects_grow: "\<exists>es. effects (handle h e u) = effects u @ es"
  by (cases "(h, e, u)" rule: handle.cases) simp_all

lemma foldl_handle_effects_grow:
  "\<exists>es. effects (foldl (\<lambda>u h. handle h e u) u hs) = effects u @ es"
proof (induction hs arbitrary: u)
  case Nil
  then show ?case by simp
next
  case (Cons h hs)
  obtain es1 where "effects (handle h e u) = effects u @ es1"
    using handle_effects_grow by blast
  moreover obtain es2 where "effects (foldl (\<lambda>u h. handle h e u) (handle h e u) hs)
      = effects (handle h e u) @ es2"
    using Cons.IH by blast
  ultimately show ?case by simp
qed

lemma foldl_handle_sends:
  assumes "OnDownloadProgress win \<in> set hs"
  shows "\<exists>es. effects (foldl (\<lambda>u h. handle h (DownloadProgress p) u) u hs) = effects u @ es
      \<and> Send win (js ''update-download-progress'') (Num (percent p)) \<in> set es"
  using assms
proof (induction hs arbitrary: u)
  case Nil
  then show ?case by simp
next
  case (Cons h hs)
  let ?u1 = "handle h (DownloadProgress p) u"
  show ?case
  proof (cases "h = OnDownloadProgress win")
    case True
    obtain es2 where "effects (foldl (\<lambda>u h. handle h (DownloadProgress p) u) ?u1 hs)
        = effects ?u1 @ es2"
      using foldl_handle_effects_grow by blast
    then have "effects (foldl (\<lambda>u h. handle h (DownloadProgress p) u) u (h # hs))
        = effects u @ ([Console (LogPercent (percent p)),
            Send win (js ''update-download-progress'') (Num (percent p))] @ es2)"
      using True by simp
    then show ?thesis
      by (intro exI [of _ "[Console (LogPercent (percent p)),
            Send win (js ''update-download-progress'') (Num (percent p))] @ es2"]) simp
  next
    case False
    then have "OnDownloadProgress win \<in> set hs"
      using Cons.prems by simp
    then obtain es2 where es2: "effects (foldl (\<lambda>u h. handle h (DownloadProgress p) u) ?u1 hs)
        = effects ?u1 @ es2"
      "Send win (js ''update-download-progress'') (Num (percent p)) \<in> set es2"
      using Cons.IH by blast
    obtain es1 where "effects ?u1 = effects u @ es1"
      using handle_effects_grow by blast
    then have "effects (foldl (\<lambda>u h. handle h (DownloadProgress p) u) u (h # hs))
        = effects u @ (es1 @ es2)"
      using es2(1) by simp
    then show ?thesis
      using es2(2) by (intro exI [of _ "es1 @ es2"]) simp
  qed
qed

lemma emit_sends:
  assumes "(js ''download-progress'', OnDownloadProgress win) \<in> set (listeners u)"
  shows "\<exists>es. effects (emit (DownloadProgress p) u) = effects u @ es
      \<and> Send win (js ''update-download-progress'') (Num (percent p)) \<in> set es"
proof -
  have "OnDownloadProgress win
      \<in> set (map snd (filter (\<lambda>l. fst l = event_name (DownloadProgress p)) (listeners u)))"
    using assms by force
  then show ?thesis
    unfolding emit_def by (rule foldl_handle_sends)
qed

lemma listeners_emit: "listeners (emit e u) = listeners u"
proof -
  have "listeners (foldl (\<lambda>u h. handle h e u) u hs) = listeners u" for hs
    by (induction hs arbitrary: u) (simp_all add: listeners_handle)
  then show ?thesis
    by (simp add: emit_def)
qed

lemma listeners_main_run: "main_run evs u = Some u' \<Longrightarrow> listeners u' = listeners u"
proof (induction evs arbitrary: u)
  case Nil
  then show ?case by simp
next
  case (Cons ev evs)
  then obtain u1 where u1: "main_step ev u = Some u1" "main_run evs u1 = Some u'"
    by (auto split: option.splits)
  have "listeners u1 = listeners u"
  proof (cases ev)
    case (Emit e)
    then show ?thesis using u1(1) by (auto simp: listeners_emit)
  next
    case (Settle k out)
    then have "continue (pending u ! k) out
        (u\<lparr>pending := take k (pending u) @ drop (Suc k) (pending u)\<rparr>) = Some u1"
      using u1(1) by (simp split: if_splits)
    then show ?thesis
      using continue_forwards [of "pending u ! k" out _ u1] by simp
  qed
  then show ?case
    using Cons.IH [OF u1(2)] by simp
qed

text \<open>
  C7: \<open>checkUpdate\<close> registers one handler for each of \<open>update-available\<close>,
  \<open>download-progress\<close>, \<open>update-downloaded\<close>, \<open>update-not-available\<close> and \<open>error\<close>. From
  then on, after any sequence of events and continuations, a \<open>download-progress\<close> event
  makes the handler send the percentage to the window as an \<open>update-download-progress\<close>
  message. On an updater that had no listener before, the event is logged and sent exactly
  once, and the percentages sent are those received, in order.
\<close>

theorem checkUpdate_forwards_progress:
  "map fst (listeners (checkUpdate win u))
     = map fst (listeners u) @
         [js ''update-available'', js ''download-progress'', js ''update-downloaded'',
          js ''update-not-available'', js ''error'']
   \<and> (main_run evs (checkUpdate win u) = Some u' \<longrightarrow>
        (\<exists>es. effects (emit (DownloadProgress progressObj) u') = effects u' @ es
           \<and> Send win (js ''update-download-progress'') (Num (percent progressObj)) \<in> set es))
   \<and> (listeners u = [] \<longrightarrow>
        effects (emit (DownloadProgress progressObj) (checkUpdate win u))
          = effects u @ [Console (LogPercent (percent progressObj)),
                         Send win (js ''update-download-progress'') (Num (percent progressObj))])
   \<and> (listeners u = [] \<and> main_run evs (checkUpdate win u) = Some u' \<longrightarrow>
        forwarded win (effects u') = forwarded win (effects u) @ received evs)"
proof -
  have reg: "map fst (listeners (checkUpdate win u))
     = map fst (listeners u) @
         [js ''update-available'', js ''download-progress'', js ''update-downloaded'',
          js ''update-not-available'', js ''error'']"
    by (simp add: checkUpdate_def)
  have l: "listeners (checkUpdate win u) =
      [(js ''update-available'', OnUpdateAvailable),
       (js ''download-progress'', OnDownloadProgress win),
       (js ''update-downloaded'', OnUpdateDownloaded win),
       (js ''update-not-available'', OnUpdateNotAvailable win),
       (js ''error'', OnError)]" if "listeners u = []"
    using that by (simp add: checkUpdate_def)
  have one: "effects (emit (DownloadProgress progressObj) (checkUpdate win u))
          = effects u @ [Console (LogPercent (percent progressObj)),
                         Send win (js ''update-download-progress'') (Num (percent progressObj))]"
    if "listeners u = []"
    using emit_registered [OF l [OF that], of "DownloadProgress progressObj"]
    by (simp add: checkUpdate_def)
  have all: "forwarded win (effects u') = forwarded win (effects u) @ received evs"
    if "listeners u = []" "main_run evs (checkUpdate win u) = Some u'"
    using main_run_forwards [OF l [OF that(1)] that(2)] by (simp add: checkUpdate_def)
  have sends: "\<exists>es. effects (emit (DownloadProgress progressObj) u') = effects u' @ es
      \<and> Send win (js ''update-download-progress'') (Num (percent progressObj)) \<in> set es"
    if r: "main_run evs (checkUpdate win u) = Some u'"
  proof -
    have "(js ''download-progress'', OnDownloadProgress win) \<in> set (listeners (checkUpdate win u))"
      by (simp add: checkUpdate_def)
    then have "(js ''download-progress'', OnDownloadProgress win) \<in> set (listeners u')"
      using listeners_main_run [OF r] by simp
    then show ?thesis
      by (rule emit_sends)
  qed
  show ?thesis
    using reg sends one all by blast
qed

theorem checkUpdate_forwards_progress_witness:
  "listeners (fresh_updater False :: nat updater) = []
   \<and> (\<exists>u'. main_run [Emit (DownloadProgress \<lparr>percent = 12\<rparr>), Emit UpdateDownloaded,
                      Settle 1 (Answer 1), Emit (DownloadProgress \<lparr>percent = 50\<rparr>)]
              (checkUpdate (7::nat) (fresh_updater False)) = Some u'
          \<and> forwarded 7 (effects u') = [12, 50])"
proof -
  obtain u' where r: "main_run [Emit (DownloadProgress \<lparr>percent = 12\<rparr>), Emit UpdateDownloaded,
                      Settle 1 (Answer 1), Emit (DownloadProgress \<lparr>percent = 50\<rparr>)]
              (checkUpdate (7::nat) (fresh_updater False)) = Some u'"
    by (simp add: checkUpdate_def fresh_updater_def emit_def js_def)
  have e: "listeners (fresh_updater False :: nat updater) = []"
    "effects (fresh_updater False :: nat updater) = []"
    by (simp_all add: fresh_updater_def)
  show ?thesis
    using checkUpdate_forwards_progress [where win = 7 and u = "fresh_updater False"
        and evs = "[Emit (DownloadProgress \<lparr>percent = 12\<rparr>), Emit UpdateDownloaded,
          Settle 1 (Answer 1), Emit (DownloadProgress \<lparr>percent = 50\<rparr>)]" and u' = u'] r e
    by simp
qed

end
